theory Spec2Isabelle
  imports Complex_Main
begin

section \<open>Python values: exceptions, outcomes of calls, ordered dictionaries\<close>

text \<open>
  The exceptions the program distinguishes. All of them derive from Python's
  \<open>Exception\<close> except \<open>KeyboardInterrupt\<close>, which derives from \<open>BaseException\<close>
  only and is therefore not caught by \<open>except Exception\<close>.
\<close>

datatype exn =
    WaitTimeoutError | UnknownValueError | RequestError
  | ValueError | StopIteration | KeyError | OverflowError | OtherError
  | KeyboardInterrupt

definition is_Exception :: "exn \<Rightarrow> bool" where
  "is_Exception e = (e \<noteq> KeyboardInterrupt)"

text \<open>A call either returns a value or raises.\<close>

datatype 'a outcome = Returns 'a | Raises exn

text \<open>\<open>time.sleep\<close> can only be left early by the user's interrupt.\<close>

datatype sleep_outcome = Slept | Interrupted

text \<open>
  A Python \<open>dict\<close> keeps its keys in insertion order: it is an association list
  with one entry per key, oldest first. Assigning to a new key appends the entry,
  assigning to an existing key keeps its position.
\<close>

type_synonym 'v dict = "(string \<times> 'v) list"

fun dict_set :: "string \<Rightarrow> 'v \<Rightarrow> 'v dict \<Rightarrow> 'v dict" where
  "dict_set k v [] = [(k, v)]"
| "dict_set k v (p # d) = (if fst p = k then (k, v) # d else p # dict_set k v d)"

text \<open>\<open>next(iter(d))\<close>: the oldest key, \<open>StopIteration\<close> on an empty dictionary.\<close>

definition first_key :: "'v dict \<Rightarrow> string outcome" where
  "first_key d = (case d of [] \<Rightarrow> Raises StopIteration | p # _ \<Rightarrow> Returns (fst p))"

text \<open>\<open>d.pop(k)\<close>: removes the entry of \<open>k\<close>, \<open>KeyError\<close> when there is none.\<close>

fun dict_pop :: "string \<Rightarrow> 'v dict \<Rightarrow> ('v dict) outcome" where
  "dict_pop k [] = Raises KeyError"
| "dict_pop k (p # d) =
     (if fst p = k then Returns d
      else (case dict_pop k d of Raises e \<Rightarrow> Raises e | Returns d' \<Rightarrow> Returns (p # d')))"

section \<open>The translator object and the world it acts on\<close>

text \<open>
  The calls to collaborators (microphone, recogniser, translation engine, speech
  synthesis, player, clock, file system) and the status lines that report a handled
  error are recorded, in order, in a trace. Progress lines that no handler prints
  (\<open>Processing speech...\<close>, \<open>You said: ...\<close>) are not recorded, nor are the reading
  of the clock and of a file's modification time.
\<close>

type_synonym audio = "nat list"

datatype message =
    MsgAdjusting | MsgCalibrating nat | MsgCalibrationComplete | MsgCalibrationWarning
  | MsgListening | MsgDot | MsgNotUnderstood | MsgRecognitionError | MsgUnexpected
  | MsgTranslationCached string | MsgTranslation string
  | MsgRetrying nat nat | MsgTTSFailed nat | MsgStopped | MsgError

text \<open>
  What the synthesis engine does when asked to write a file: it writes it (with the
  given modification time), or it raises, leaving either nothing or a file behind.
\<close>

datatype synth_outcome = Synthesized real | SynthFailed exn "real option"

datatype event =
    AdjustForAmbientNoise real
  | Listen real real
  | Recognize audio string
  | Sleep real
  | Translate string "string outcome"
  | Exists string
  | Synthesize string string string synth_outcome
  | Play string "unit outcome"
  | Glob string
  | Unlink string "unit outcome"
  | Print message

text \<open>
  The fields of \<open>RealTimeTranslator\<close> that the program reads or writes, the files
  on disk (path and last-modified time, one entry per path) and the trace.
\<close>

record state =
  source_lang :: string
  target_lang :: string
  cache_dir :: string
  translation_cache :: "string dict"
  files :: "(string \<times> real) list"
  trace :: "event list"

definition log :: "event list \<Rightarrow> state \<Rightarrow> state" where
  "log evs s = s\<lparr>trace := trace s @ evs\<rparr>"

section \<open>manage_cache\<close>

text \<open>
  Floating point. A double has 53 significant bits. \<open>round_to_double n\<close> is the
  natural number \<open>n\<close> rounded to 53 significant bits, to the nearest such number and to
  the even one of two that are equally near.
\<close>

fun bit_length :: "nat \<Rightarrow> nat" where
  "bit_length n = (if n = 0 then 0 else Suc (bit_length (n div 2)))"

declare bit_length.simps [simp del]

definition round_to_double :: "nat \<Rightarrow> nat" where
  "round_to_double n =
     (if bit_length n \<le> 53 then n
      else (let sh = bit_length n - 53; q = n div 2 ^ sh; r = n mod 2 ^ sh; half = 2 ^ (sh - 1)
            in (if r > half \<or> (r = half \<and> odd q) then q + 1 else q) * 2 ^ sh))"

text \<open>
  The conversion of an \<open>int\<close> to a \<open>float\<close>, which the product \<open>max_cache_size * 0.2\<close>
  starts with: the nearest double, \<open>OverflowError\<close> when that is \<open>2 ^ 1024\<close> or more. The
  result, a double with an integral value, is given as that integer.
\<close>

definition float_of_int :: "int \<Rightarrow> int outcome" where
  "float_of_int n =
     (let x = round_to_double (nat \<bar>n\<bar>)
      in if 2 ^ 1024 \<le> x then Raises OverflowError else Returns (sgn n * int x))"

text \<open>
  \<open>int(max_cache_size * 0.2)\<close>. The double written \<open>0.2\<close> is
  \<open>3602879701896397 / 2 ^ 54\<close>. The product of the converted threshold with it is
  rounded to a double again (its numerator over \<open>2 ^ 54\<close> is), and \<open>int\<close> truncates
  towards zero.
\<close>

definition items_to_remove :: "int \<Rightarrow> int outcome" where
  "items_to_remove max_cache_size =
     (case float_of_int max_cache_size of
        Raises e \<Rightarrow> Raises e
      | Returns x \<Rightarrow>
          Returns (sgn x * int (round_to_double (nat \<bar>x\<bar> * 3602879701896397) div 2 ^ 54)))"

text \<open>
  One round of the loop body
  \<open>self.translation_cache.pop(next(iter(self.translation_cache)))\<close>.
\<close>

definition pop_oldest :: "string dict \<Rightarrow> (string dict) outcome" where
  "pop_oldest d = (case first_key d of Raises e \<Rightarrow> Raises e | Returns k \<Rightarrow> dict_pop k d)"

text \<open>\<open>for _ in range(items_to_remove)\<close>, as a recursion over the list of the range.\<close>

fun evict :: "nat list \<Rightarrow> state \<Rightarrow> unit outcome \<times> state" where
  "evict [] s = (Returns (), s)"
| "evict (i # is) s =
     (case pop_oldest (translation_cache s) of
        Raises e \<Rightarrow> (Raises e, s)
      | Returns d \<Rightarrow> evict is (s\<lparr>translation_cache := d\<rparr>))"

definition manage_cache :: "int \<Rightarrow> state \<Rightarrow> unit outcome \<times> state" where
  "manage_cache max_cache_size s =
     (if int (length (translation_cache s)) > max_cache_size
      then (case items_to_remove max_cache_size of
              Raises e \<Rightarrow> (Raises e, s)
            | Returns n \<Rightarrow> evict [0 ..< nat n] s)
      else (Returns (), s))"

section \<open>The audio files\<close>

definition file_exists :: "string \<Rightarrow> (string \<times> real) list \<Rightarrow> bool" where
  "file_exists p fs = (p \<in> set (map fst fs))"

fun fs_write :: "string \<Rightarrow> real \<Rightarrow> (string \<times> real) list \<Rightarrow> (string \<times> real) list" where
  "fs_write p t [] = [(p, t)]"
| "fs_write p t (f # fs) = (if fst f = p then (p, t) # fs else f # fs_write p t fs)"

definition fs_remove :: "string \<Rightarrow> (string \<times> real) list \<Rightarrow> (string \<times> real) list" where
  "fs_remove p fs = filter (\<lambda>f. fst f \<noteq> p) fs"

text \<open>
  \<open>get_audio_filename\<close>. The digest \<open>hashlib.md5(text.encode()).hexdigest()\<close> is
  a parameter of the model, \<open>md5\<close>.
\<close>

definition get_audio_filename :: "(string \<Rightarrow> string) \<Rightarrow> state \<Rightarrow> string \<Rightarrow> string" where
  "get_audio_filename md5 s text =
     cache_dir s @ ''/'' @ ''audio_'' @ target_lang s @ ''_'' @ md5 text @ ''.mp3''"

text \<open>
  \<open>self.cache_dir.glob("*.mp3")\<close>: the files directly inside the directory whose
  name ends in \<open>.mp3\<close>, as listed when the sweep starts.
\<close>

definition matches_mp3 :: "string \<Rightarrow> string \<Rightarrow> bool" where
  "matches_mp3 dir p =
     (let pre = dir @ ''/''; name = drop (length pre) p
      in take (length pre) p = pre \<and> CHR ''/'' \<notin> set name
         \<and> 4 \<le> length name \<and> drop (length name - 4) name = ''.mp3'')"

definition glob_mp3 :: "string \<Rightarrow> (string \<times> real) list \<Rightarrow> (string \<times> real) list" where
  "glob_mp3 dir fs = filter (\<lambda>f. matches_mp3 dir (fst f)) fs"

section \<open>text_to_speech\<close>

text \<open>What the collaborators do during one attempt, if they are called.\<close>

record attempt_env =
  synth_res :: synth_outcome
  play_res :: "unit outcome"
  retry_sleep :: sleep_outcome

text \<open>\<open>tts = gTTS(text=text, lang=self.target_lang); tts.save(str(audio_file))\<close>\<close>

definition synthesize :: "attempt_env \<Rightarrow> string \<Rightarrow> string \<Rightarrow> state \<Rightarrow> unit outcome \<times> state" where
  "synthesize a text audio_file s =
     (let s1 = log [Synthesize text (target_lang s) audio_file (synth_res a)] s in
      case synth_res a of
        Synthesized t \<Rightarrow> (Returns (), s1\<lparr>files := fs_write audio_file t (files s1)\<rparr>)
      | SynthFailed e left \<Rightarrow>
          (Raises e,
           (case left of None \<Rightarrow> s1
            | Some t \<Rightarrow> s1\<lparr>files := fs_write audio_file t (files s1)\<rparr>)))"

definition playsound :: "attempt_env \<Rightarrow> string \<Rightarrow> state \<Rightarrow> unit outcome \<times> state" where
  "playsound a audio_file s = (play_res a, log [Play audio_file (play_res a)] s)"

text \<open>The body of the \<open>try\<close> in \<open>text_to_speech\<close>.\<close>

definition tts_try :: "(string \<Rightarrow> string) \<Rightarrow> attempt_env \<Rightarrow> string \<Rightarrow> state \<Rightarrow> unit outcome \<times> state" where
  "tts_try md5 a text s =
     (let audio_file = get_audio_filename md5 s text;
          s1 = log [Exists audio_file] s in
      if \<not> file_exists audio_file (files s1) then
        (case synthesize a text audio_file s1 of
           (Raises e, s2) \<Rightarrow> (Raises e, s2)
         | (Returns _, s2) \<Rightarrow> playsound a audio_file s2)
      else playsound a audio_file s1)"

text \<open>
  \<open>for attempt in range(max_retries)\<close> with its handler. An exception that is not
  an \<open>Exception\<close> leaves the function; after the last attempt the loop ends and the
  function returns \<open>None\<close>, as it does after a success.
\<close>

fun tts_attempts ::
  "(string \<Rightarrow> string) \<Rightarrow> nat \<Rightarrow> (nat \<Rightarrow> attempt_env) \<Rightarrow> string \<Rightarrow> nat list \<Rightarrow> state
     \<Rightarrow> unit outcome \<times> state" where
  "tts_attempts md5 max_retries env text [] s = (Returns (), s)"
| "tts_attempts md5 max_retries env text (attempt # rest) s =
     (case tts_try md5 (env attempt) text s of
        (Returns _, s1) \<Rightarrow> (Returns (), s1)
      | (Raises e, s1) \<Rightarrow>
          if is_Exception e then
            if attempt = max_retries - 1 then
              tts_attempts md5 max_retries env text rest
                (log [Print (MsgTTSFailed max_retries)] s1)
            else
              (case retry_sleep (env attempt) of
                 Slept \<Rightarrow>
                   tts_attempts md5 max_retries env text rest
                     (log [Print (MsgRetrying (attempt + 2) max_retries), Sleep 1] s1)
               | Interrupted \<Rightarrow>
                   (Raises KeyboardInterrupt,
                    log [Print (MsgRetrying (attempt + 2) max_retries), Sleep 1] s1))
          else (Raises e, s1))"

definition text_to_speech ::
  "(string \<Rightarrow> string) \<Rightarrow> nat \<Rightarrow> (nat \<Rightarrow> attempt_env) \<Rightarrow> string \<Rightarrow> state
     \<Rightarrow> unit outcome \<times> state" where
  "text_to_speech md5 max_retries env text s =
     tts_attempts md5 max_retries env text [0 ..< max_retries] s"

section \<open>cleanup\<close>

text \<open>
  The loop over the listed files. \<open>stat\<close> tells whether \<open>file.stat()\<close> can read
  the file's modification time, which is then the one on disk, and \<open>unlink\<close> what
  \<open>file.unlink()\<close> does for each path. The call of \<open>stat\<close> stands in the condition,
  outside the \<open>try\<close>: what it raises leaves the function.
\<close>

fun sweep ::
  "real \<Rightarrow> (string \<Rightarrow> unit outcome) \<Rightarrow> (string \<Rightarrow> unit outcome) \<Rightarrow> (string \<times> real) list \<Rightarrow> state
     \<Rightarrow> unit outcome \<times> state" where
  "sweep current_time stat unlink [] s = (Returns (), s)"
| "sweep current_time stat unlink (f # rest) s =
     (case stat (fst f) of
        Raises e \<Rightarrow> (Raises e, s)
      | Returns _ \<Rightarrow>
          if current_time - snd f > 86400 then
            (case unlink (fst f) of
               Returns _ \<Rightarrow>
                 sweep current_time stat unlink rest
                   (log [Unlink (fst f) (Returns ())] (s\<lparr>files := fs_remove (fst f) (files s)\<rparr>))
             | Raises e \<Rightarrow>
                 if is_Exception e
                 then sweep current_time stat unlink rest (log [Unlink (fst f) (Raises e)] s)
                 else (Raises e, log [Unlink (fst f) (Raises e)] s))
          else sweep current_time stat unlink rest s)"

definition cleanup ::
  "real \<Rightarrow> (string \<Rightarrow> unit outcome) \<Rightarrow> (string \<Rightarrow> unit outcome) \<Rightarrow> state \<Rightarrow> unit outcome \<times> state" where
  "cleanup current_time stat unlink s =
     sweep current_time stat unlink (glob_mp3 (cache_dir s) (files s)) (log [Glob (cache_dir s)] s)"

section \<open>adjust_for_ambient_noise\<close>

text \<open>\<open>for i in range(3)\<close>; \<open>passes i\<close> is what the \<open>i\<close>-th sampling pass does.\<close>

fun calibration_passes :: "(nat \<Rightarrow> unit outcome) \<Rightarrow> nat list \<Rightarrow> state \<Rightarrow> unit outcome \<times> state" where
  "calibration_passes passes [] s = (Returns (), s)"
| "calibration_passes passes (i # rest) s =
     (case passes i of
        Raises e \<Rightarrow> (Raises e, log [AdjustForAmbientNoise 1] s)
      | Returns _ \<Rightarrow>
          calibration_passes passes rest
            (log [AdjustForAmbientNoise 1, Print (MsgCalibrating (i + 1))] s))"

definition adjust_for_ambient_noise :: "(nat \<Rightarrow> unit outcome) \<Rightarrow> state \<Rightarrow> unit outcome \<times> state" where
  "adjust_for_ambient_noise passes s =
     (case calibration_passes passes [0 ..< 3] (log [Print MsgAdjusting] s) of
        (Returns _, s1) \<Rightarrow> (Returns (), log [Print MsgCalibrationComplete] s1)
      | (Raises e, s1) \<Rightarrow>
          if is_Exception e then (Returns (), log [Print MsgCalibrationWarning] s1)
          else (Raises e, s1))"

section \<open>listen_and_translate\<close>

text \<open>What the collaborators do during one round of the \<open>while True\<close> loop.\<close>

record iter_env =
  listen_res :: "audio outcome"
  recognize_res :: "string outcome"
  throttle_sleep :: sleep_outcome
  translate_res :: "string outcome"
  tts_env :: "nat \<Rightarrow> attempt_env"
  cooldown_sleep :: sleep_outcome

text \<open>
  Lines 63 to 70: the cached translation on a hit, the engine's answer, stored under
  the recognised text, on a miss.
\<close>

definition translate_cached :: "iter_env \<Rightarrow> string \<Rightarrow> state \<Rightarrow> string outcome \<times> state" where
  "translate_cached env text s =
     (case map_of (translation_cache s) text of
        Some translation \<Rightarrow> (Returns translation, log [Print (MsgTranslationCached translation)] s)
      | None \<Rightarrow>
          (case translate_res env of
             Raises e \<Rightarrow> (Raises e, log [Translate text (Raises e)] s)
           | Returns translation \<Rightarrow>
               (Returns translation,
                log [Translate text (Returns translation), Print (MsgTranslation translation)]
                  (s\<lparr>translation_cache := dict_set text translation (translation_cache s)\<rparr>))))"

text \<open>The body of the inner \<open>try\<close>.\<close>

definition try_body :: "(string \<Rightarrow> string) \<Rightarrow> iter_env \<Rightarrow> state \<Rightarrow> unit outcome \<times> state" where
  "try_body md5 env s =
     (let s1 = log [Listen 5 10] s in
      case listen_res env of
        Raises e \<Rightarrow> (Raises e, s1)
      | Returns audio \<Rightarrow>
          (let s2 = log [Recognize audio (source_lang s1)] s1 in
           case recognize_res env of
             Raises e \<Rightarrow> (Raises e, s2)
           | Returns text \<Rightarrow>
               (let s3 = log [Sleep (1 / 2)] s2 in
                case throttle_sleep env of
                  Interrupted \<Rightarrow> (Raises KeyboardInterrupt, s3)
                | Slept \<Rightarrow>
                    (case translate_cached env text s3 of
                       (Raises e, s4) \<Rightarrow> (Raises e, s4)
                     | (Returns translation, s4) \<Rightarrow>
                         text_to_speech md5 3 (tts_env env) translation s4))))"

text \<open>
  One round of the loop: the body and the four handlers, in the order of the source.
  The result \<open>Raises e\<close> means that \<open>e\<close> leaves the \<open>while\<close> loop.
\<close>

definition iteration :: "(string \<Rightarrow> string) \<Rightarrow> iter_env \<Rightarrow> state \<Rightarrow> unit outcome \<times> state" where
  "iteration md5 env s =
     (case try_body md5 env s of
        (Returns _, s1) \<Rightarrow> (Returns (), s1)
      | (Raises e, s1) \<Rightarrow>
          if e = WaitTimeoutError then (Returns (), log [Print MsgDot] s1)
          else if e = UnknownValueError then (Returns (), log [Print MsgNotUnderstood] s1)
          else if e = RequestError then (Returns (), log [Print MsgRecognitionError] s1)
          else if is_Exception e then
            (case cooldown_sleep env of
               Slept \<Rightarrow> (Returns (), log [Print MsgUnexpected, Sleep 1] s1)
             | Interrupted \<Rightarrow> (Raises KeyboardInterrupt, log [Print MsgUnexpected, Sleep 1] s1))
          else (Raises e, s1))"

text \<open>
  \<open>while True\<close> has no exit of its own. It is run against a finite script of rounds:
  \<open>None\<close> says that the script is used up and the loop is still running, \<open>Some e\<close>
  that the exception \<open>e\<close> left it.
\<close>

fun session_loop :: "(string \<Rightarrow> string) \<Rightarrow> iter_env list \<Rightarrow> state \<Rightarrow> exn option \<times> state" where
  "session_loop md5 [] s = (None, s)"
| "session_loop md5 (env # envs) s =
     (case iteration md5 env s of
        (Returns _, s1) \<Rightarrow> session_loop md5 envs s1
      | (Raises e, s1) \<Rightarrow> (Some e, s1))"

record session_env =
  microphone_res :: "unit outcome"
  calibration_res :: "nat \<Rightarrow> unit outcome"
  rounds :: "iter_env list"
  cleanup_time :: real
  stat_res :: "string \<Rightarrow> unit outcome"
  unlink_res :: "string \<Rightarrow> unit outcome"

datatype run = Running state | Returned state | Raised exn state

text \<open>
  The \<open>finally\<close> clause: \<open>cleanup\<close> runs, then the pending exception, if any,
  goes on to the caller.
\<close>

definition finally_cleanup :: "session_env \<Rightarrow> exn option \<Rightarrow> state \<Rightarrow> run" where
  "finally_cleanup env pending s =
     (case cleanup (cleanup_time env) (stat_res env) (unlink_res env) s of
        (Raises e, s1) \<Rightarrow> Raised e s1
      | (Returns _, s1) \<Rightarrow> (case pending of None \<Rightarrow> Returned s1 | Some e \<Rightarrow> Raised e s1))"

definition listen_and_translate :: "(string \<Rightarrow> string) \<Rightarrow> session_env \<Rightarrow> state \<Rightarrow> run" where
  "listen_and_translate md5 env s =
     (case
        (case microphone_res env of
           Raises e \<Rightarrow> (Some e, s)
         | Returns _ \<Rightarrow>
             (case adjust_for_ambient_noise (calibration_res env) s of
                (Raises e, s1) \<Rightarrow> (Some e, s1)
              | (Returns _, s1) \<Rightarrow> session_loop md5 (rounds env) (log [Print MsgListening] s1)))
      of
        (None, s2) \<Rightarrow> Running s2
      | (Some e, s2) \<Rightarrow>
          if e = KeyboardInterrupt then finally_cleanup env None (log [Print MsgStopped] s2)
          else finally_cleanup env (Some e) s2)"

section \<open>Construction and main\<close>

text \<open>
  What the collaborators do while the object is built, and the files on disk at that
  moment.
\<close>

record init_env =
  translator_res :: "unit outcome"
  probe_res :: "string outcome"
  mkdir_res :: "unit outcome"
  disk :: "(string \<times> real) list"

definition init :: "init_env \<Rightarrow> string \<Rightarrow> string \<Rightarrow> state outcome" where
  "init env src tgt =
     (case (case translator_res env of Raises e \<Rightarrow> Raises e | Returns _ \<Rightarrow> probe_res env) of
        Raises e \<Rightarrow> if is_Exception e then Raises ValueError else Raises e
      | Returns _ \<Rightarrow>
          (case mkdir_res env of
             Raises e \<Rightarrow> Raises e
           | Returns _ \<Rightarrow>
               Returns \<lparr>source_lang = src, target_lang = tgt, cache_dir = ''translation_cache'',
                        translation_cache = [], files = disk env, trace = []\<rparr>))"

text \<open>
  \<open>main\<close> after the two language prompts: \<open>NotStarted e\<close> says that the constructor
  raised \<open>e\<close> and \<open>listen_and_translate\<close> was not called.
\<close>

datatype main_run = NotStarted exn | Session run

definition main :: "(string \<Rightarrow> string) \<Rightarrow> init_env \<Rightarrow> session_env \<Rightarrow> string \<Rightarrow> string \<Rightarrow> main_run" where
  "main md5 ienv senv src tgt =
     (case init ienv src tgt of
        Raises e \<Rightarrow> NotStarted e
      | Returns s \<Rightarrow>
          (case listen_and_translate md5 senv s of
             Raised e s1 \<Rightarrow>
               if is_Exception e then Session (Returned (log [Print MsgError] s1))
               else Session (Raised e s1)
           | r \<Rightarrow> Session r))"

section \<open>Example inputs\<close>

text \<open>Concrete sessions, dictionaries and scripts on which the theorems below are run.\<close>

definition session0 :: state where
  "session0 = \<lparr>source_lang = ''en'', target_lang = ''fr'', cache_dir = ''translation_cache'',
                translation_cache = [], files = [], trace = []\<rparr>"

definition eleven_entries :: "string dict" where
  "eleven_entries =
     [(''one'', ''un''), (''two'', ''deux''), (''three'', ''trois''), (''four'', ''quatre''),
      (''five'', ''cinq''), (''six'', ''six''), (''seven'', ''sept''), (''eight'', ''huit''),
      (''nine'', ''neuf''), (''ten'', ''dix''), (''eleven'', ''onze'')]"

definition attempt_fine :: attempt_env where
  "attempt_fine = \<lparr>synth_res = Synthesized 100, play_res = Returns (), retry_sleep = Slept\<rparr>"

definition round_hello :: iter_env where
  "round_hello =
     \<lparr>listen_res = Returns [1, 2, 3], recognize_res = Returns ''hello'', throttle_sleep = Slept,
      translate_res = Returns ''bonjour'', tts_env = (\<lambda>_. attempt_fine), cooldown_sleep = Slept\<rparr>"

definition insert_all :: "string dict \<Rightarrow> string dict \<Rightarrow> string dict" where
  "insert_all kvs d = fold (\<lambda>kv. dict_set (fst kv) (snd kv)) kvs d"

definition thirteen_entries :: "string dict" where
  "thirteen_entries = eleven_entries @ [(''twelve'', ''douze''), (''thirteen'', ''treize'')]"


text \<open>
  The part of the listing \<open>xs\<close> that a sweep gets through: the files before the first
  one whose \<open>stat\<close> raises.
\<close>

definition reached :: "(string \<Rightarrow> unit outcome) \<Rightarrow> (string \<times> real) list \<Rightarrow> (string \<times> real) list" where
  "reached stat xs = takeWhile (\<lambda>f. stat (fst f) = Returns ()) xs"

definition stat_ok :: "string \<Rightarrow> unit outcome" where
  "stat_ok p = Returns ()"




definition unlink0 :: "string \<Rightarrow> unit outcome" where
  "unlink0 p = (if p = ''translation_cache/audio_fr_locked.mp3'' then Raises OtherError else Returns ())"

text \<open>
  \<open>appends P s s'\<close>: the trace of \<open>s'\<close> is the trace of \<open>s\<close> followed by events
  that all satisfy \<open>P\<close>.
\<close>

definition appends :: "(event \<Rightarrow> bool) \<Rightarrow> state \<Rightarrow> state \<Rightarrow> bool" where
  "appends P s s' = (\<exists>evs. trace s' = trace s @ evs \<and> list_all P evs)"

text \<open>The events of the loop: everything but calibration and the cleanup sweep.\<close>

fun loop_event :: "event \<Rightarrow> bool" where
  "loop_event (AdjustForAmbientNoise d) = False"
| "loop_event (Glob d) = False"
| "loop_event (Unlink p r) = False"
| "loop_event ev = True"

text \<open>The events of \<open>text_to_speech\<close>.\<close>

fun speech_event :: "event \<Rightarrow> bool" where
  "speech_event (Exists p) = True"
| "speech_event (Synthesize t l p r) = True"
| "speech_event (Play p r) = True"
| "speech_event (Sleep d) = True"
| "speech_event (Print m) = True"
| "speech_event ev = False"

fun is_glob :: "event \<Rightarrow> bool" where
  "is_glob (Glob d) = True"
| "is_glob ev = False"

fun run_state :: "run \<Rightarrow> state" where
  "run_state (Running s) = s"
| "run_state (Returned s) = s"
| "run_state (Raised e s) = s"

text \<open>The events of three sampling passes that all return.\<close>

definition calibration_events :: "nat list \<Rightarrow> event list" where
  "calibration_events xs =
     concat (map (\<lambda>i. [AdjustForAmbientNoise 1, Print (MsgCalibrating (i + 1))]) xs)"

fun is_adjust :: "event \<Rightarrow> bool" where
  "is_adjust (AdjustForAmbientNoise d) = True"
| "is_adjust ev = False"

fun is_unlink :: "event \<Rightarrow> bool" where
  "is_unlink (Unlink p r) = True"
| "is_unlink ev = False"

definition passes_fail_second :: "nat \<Rightarrow> unit outcome" where
  "passes_fail_second i = (if i = 1 then Raises OtherError else Returns ())"

definition session_env0 :: session_env where
  "session_env0 =
     \<lparr>microphone_res = Returns (), calibration_res = (\<lambda>_. Returns ()), rounds = [round_hello],
      cleanup_time = 100000, stat_res = stat_ok, unlink_res = unlink0\<rparr>"

text \<open>The events added to the trace between the state \<open>s\<close> and a later state \<open>s'\<close>.\<close>

definition added :: "state \<Rightarrow> state \<Rightarrow> event list" where
  "added s s' = drop (length (trace s)) (trace s')"

fun is_exists :: "event \<Rightarrow> bool" where
  "is_exists (Exists p) = True"
| "is_exists ev = False"

fun is_sleep :: "event \<Rightarrow> bool" where
  "is_sleep (Sleep d) = True"
| "is_sleep ev = False"

fun is_print :: "event \<Rightarrow> bool" where
  "is_print (Print m) = True"
| "is_print ev = False"

text \<open>The events of the engine and the player.\<close>

fun is_synth_or_play :: "event \<Rightarrow> bool" where
  "is_synth_or_play (Synthesize t l p r) = True"
| "is_synth_or_play (Play p r) = True"
| "is_synth_or_play ev = False"

fun is_ok_play :: "event \<Rightarrow> bool" where
  "is_ok_play (Play p (Returns u)) = True"
| "is_ok_play ev = False"

text \<open>No collaborator of an attempt is cut short by the user's interrupt.\<close>

definition attempt_uninterrupted :: "attempt_env \<Rightarrow> bool" where
  "attempt_uninterrupted a =
     ((case synth_res a of Synthesized t \<Rightarrow> True | SynthFailed e left \<Rightarrow> is_Exception e)
      \<and> (case play_res a of Returns u \<Rightarrow> True | Raises e \<Rightarrow> is_Exception e)
      \<and> retry_sleep a = Slept)"

text \<open>
  Between two states: the attempts made (each one asks once whether the file exists) and
  the pauses taken.
\<close>

definition attempts_made :: "state \<Rightarrow> state \<Rightarrow> nat" where
  "attempts_made s s' = length (filter is_exists (added s s'))"

definition sleeps_made :: "state \<Rightarrow> state \<Rightarrow> event list" where
  "sleeps_made s s' = filter is_sleep (added s s')"

definition attempt_play_fails :: attempt_env where
  "attempt_play_fails =
     \<lparr>synth_res = Synthesized 100, play_res = Raises OtherError, retry_sleep = Slept\<rparr>"

definition bonjour_mp3 :: string where
  "bonjour_mp3 = ''translation_cache/audio_fr_bonjour.mp3''"

definition fails_twice :: "nat \<Rightarrow> attempt_env" where
  "fails_twice i = (if i < 2 then attempt_play_fails else attempt_fine)"

text \<open>No collaborator of a round is cut short by the user's interrupt.\<close>

definition round_uninterrupted :: "iter_env \<Rightarrow> bool" where
  "round_uninterrupted env =
     (listen_res env \<noteq> Raises KeyboardInterrupt
      \<and> recognize_res env \<noteq> Raises KeyboardInterrupt
      \<and> throttle_sleep env = Slept
      \<and> translate_res env \<noteq> Raises KeyboardInterrupt
      \<and> list_all (\<lambda>i. attempt_uninterrupted (tts_env env i)) [0 ..< 3]
      \<and> cooldown_sleep env = Slept)"




definition round_translate_fails :: iter_env where
  "round_translate_fails = round_hello\<lparr>translate_res := Raises OtherError\<rparr>"





definition init_env0 :: init_env where
  "init_env0 =
     \<lparr>translator_res = Returns (), probe_res = Returns ''test'', mkdir_res = Returns (),
      disk = []\<rparr>"

text \<open>
  The fields that no function of the loop writes: the two languages and the cache
  directory.
\<close>

definition same_session :: "state \<Rightarrow> state \<Rightarrow> bool" where
  "same_session s s' =
     (source_lang s' = source_lang s \<and> target_lang s' = target_lang s \<and> cache_dir s' = cache_dir s)"

text \<open>
  The translation cache after a round, from the cache before it: a new entry when a phrase
  that is not cached was recognised and translated, no change otherwise.
\<close>

definition cache_after_round :: "iter_env \<Rightarrow> string dict \<Rightarrow> string dict" where
  "cache_after_round env c =
     (case listen_res env of
        Raises e \<Rightarrow> c
      | Returns au \<Rightarrow>
          (case recognize_res env of
             Raises e \<Rightarrow> c
           | Returns t \<Rightarrow>
               (case throttle_sleep env of
                  Interrupted \<Rightarrow> c
                | Slept \<Rightarrow>
                    (case map_of c t of
                       Some tr \<Rightarrow> c
                     | None \<Rightarrow>
                         (case translate_res env of
                            Returns tr \<Rightarrow> c @ [(t, tr)]
                          | Raises e \<Rightarrow> c)))))"

text \<open>A round in which the recogniser hears the phrase \<open>t\<close> and everything works.\<close>

definition round_saying :: "string \<Rightarrow> iter_env" where
  "round_saying t = round_hello\<lparr>recognize_res := Returns t\<rparr>"

text \<open>Phrases that differ from one another: \<open>a\<close>, \<open>aa\<close>, \<open>aaa\<close>, ...\<close>

definition phrase :: "nat \<Rightarrow> string" where
  "phrase i = replicate (Suc i) CHR ''a''"

text \<open>A session of \<open>n\<close> rounds, each with a phrase not heard before.\<close>

definition new_phrases :: "nat \<Rightarrow> iter_env list" where
  "new_phrases n = map (\<lambda>i. round_saying (phrase i)) [0 ..< n]"

definition mkdir_fails :: init_env where
  "mkdir_fails = init_env0\<lparr>mkdir_res := Raises OtherError\<rparr>"

definition probe_fails :: init_env where
  "probe_fails = init_env0\<lparr>probe_res := Raises RequestError\<rparr>"

text \<open>The calls of the translation engine for the text \<open>t\<close>, and those that returned.\<close>

fun is_translate_of :: "string \<Rightarrow> event \<Rightarrow> bool" where
  "is_translate_of t (Translate t' r) = (t' = t)"
| "is_translate_of t ev = False"

fun is_translated :: "string \<Rightarrow> event \<Rightarrow> bool" where
  "is_translated t (Translate t' (Returns tr)) = (t' = t)"
| "is_translated t ev = False"

text \<open>
  Replaying the engine calls of a trace against the list of cached texts: a call for a
  cached text is refused, a call that returns adds its text to the list.
\<close>

fun replay_translations :: "string list \<Rightarrow> event list \<Rightarrow> string list option" where
  "replay_translations K [] = Some K"
| "replay_translations K (Translate t r # evs) =
     (if t \<in> set K then None
      else replay_translations (case r of Returns tr \<Rightarrow> K @ [t] | Raises e \<Rightarrow> K) evs)"
| "replay_translations K (ev # evs) = replay_translations K evs"

text \<open>
  \<open>tracks s s'\<close>: the events added between \<open>s\<close> and \<open>s'\<close> replay from the keys of
  the cache of \<open>s\<close> to the keys of the cache of \<open>s'\<close>.
\<close>

definition tracks :: "state \<Rightarrow> state \<Rightarrow> bool" where
  "tracks s s' =
     (\<exists>evs. trace s' = trace s @ evs
            \<and> replay_translations (map fst (translation_cache s)) evs
                = Some (map fst (translation_cache s')))"

definition session_hello_twice :: session_env where
  "session_hello_twice = session_env0\<lparr>rounds := [round_hello, round_hello]\<rparr>"

definition session_retranslated :: session_env where
  "session_retranslated = session_env0\<lparr>rounds := [round_translate_fails, round_hello]\<rparr>"

definition hello_cached :: state where
  "hello_cached = session0\<lparr>translation_cache := [(''hello'', ''bonjour'')]\<rparr>"

text \<open>The calls of the synthesis engine for the path \<open>p\<close>, and those that wrote the file.\<close>

fun is_synthesize_at :: "string \<Rightarrow> event \<Rightarrow> bool" where
  "is_synthesize_at p (Synthesize t l p' r) = (p' = p)"
| "is_synthesize_at p ev = False"

fun is_synthesized_at :: "string \<Rightarrow> event \<Rightarrow> bool" where
  "is_synthesized_at p (Synthesize t l p' (Synthesized tm)) = (p' = p)"
| "is_synthesized_at p ev = False"

fun leaves_file :: "synth_outcome \<Rightarrow> bool" where
  "leaves_file (Synthesized tm) = True"
| "leaves_file (SynthFailed e left) = (left \<noteq> None)"

text \<open>
  Replaying the engine calls of a trace against the list of existing paths: a call for
  an existing path is refused, a call that leaves a file adds its path to the list.
\<close>

fun replay_synthesis :: "string list \<Rightarrow> event list \<Rightarrow> string list option" where
  "replay_synthesis F [] = Some F"
| "replay_synthesis F (Synthesize t l p r # evs) =
     (if p \<in> set F then None
      else replay_synthesis (if leaves_file r then F @ [p] else F) evs)"
| "replay_synthesis F (ev # evs) = replay_synthesis F evs"

text \<open>
  An engine call is addressed when it is made for the session's target language and for
  the path that \<open>get_audio_filename\<close> computes from its text.
\<close>

fun addressed :: "(string \<Rightarrow> string) \<Rightarrow> state \<Rightarrow> event \<Rightarrow> bool" where
  "addressed md5 s (Synthesize t l p r) = (l = target_lang s \<and> p = get_audio_filename md5 s t)"
| "addressed md5 s ev = True"

text \<open>
  \<open>keeps md5 s s'\<close>: between \<open>s\<close> and \<open>s'\<close> the session is the same, every engine
  call is addressed, and the events replay from the paths on disk in \<open>s\<close> to the paths
  on disk in \<open>s'\<close>.
\<close>

definition keeps :: "(string \<Rightarrow> string) \<Rightarrow> state \<Rightarrow> state \<Rightarrow> bool" where
  "keeps md5 s s' =
     (same_session s s'
      \<and> (\<exists>evs. trace s' = trace s @ evs \<and> list_all (addressed md5 s) evs
                \<and> replay_synthesis (map fst (files s)) evs = Some (map fst (files s'))))"

definition synth_fails_once :: "nat \<Rightarrow> attempt_env" where
  "synth_fails_once i =
     (if i = 0 then attempt_fine\<lparr>synth_res := SynthFailed OtherError None\<rparr> else attempt_fine)"

definition session_resynthesized :: session_env where
  "session_resynthesized =
     session_env0\<lparr>rounds := [round_hello\<lparr>tts_env := synth_fails_once\<rparr>]\<rparr>"

definition bonjour_on_disk :: state where
  "bonjour_on_disk = session0\<lparr>files := [(bonjour_mp3, 50)]\<rparr>"

section \<open>Properties of manage_cache\<close>

lemma pop_oldest_Cons: "pop_oldest (p # d) = Returns d"
  by (simp add: pop_oldest_def first_key_def)

lemma evict_drop_gen:
  "length xs \<le> length (translation_cache s) \<Longrightarrow>
   evict xs s = (Returns (), s\<lparr>translation_cache := drop (length xs) (translation_cache s)\<rparr>)"
proof (induction xs arbitrary: s)
  case Nil
  then show ?case by simp
next
  case (Cons i xs)
  then obtain p d where c: "translation_cache s = p # d"
    by (cases "translation_cache s") auto
  with Cons.prems have "length xs \<le> length (translation_cache (s\<lparr>translation_cache := d\<rparr>))"
    by simp
  from Cons.IH [OF this] c show ?case
    by (simp add: pop_oldest_Cons)
qed

subsection \<open>The double nearest to a fifth of the threshold\<close>

lemma bit_length_0 [simp]: "bit_length 0 = 0"
  by (simp add: bit_length.simps)

lemma bit_length_bounds: "0 < n \<Longrightarrow> 2 ^ (bit_length n - 1) \<le> n \<and> n < 2 ^ bit_length n"
proof (induction n rule: bit_length.induct)
  case (1 n)
  show ?case
  proof (cases "n div 2 = 0")
    case True
    with 1(2) have "n = 1" by (simp add: div_eq_0_iff) 
    then show ?thesis by (simp add: bit_length.simps)
  next
    case False
    with 1 have ih: "2 ^ (bit_length (n div 2) - 1) \<le> n div 2" "n div 2 < 2 ^ bit_length (n div 2)"
      by simp_all
    from False have pos: "0 < bit_length (n div 2)" by (simp add: bit_length.simps [of "n div 2"])
    have bl: "bit_length n = Suc (bit_length (n div 2))"
      using 1(2) by (simp add: bit_length.simps [of n])
    from pos obtain k where k: "bit_length (n div 2) = Suc k" by (cases "bit_length (n div 2)") auto
    from ih k have "2 ^ k \<le> n div 2" "n div 2 < 2 * 2 ^ k" by simp_all
    then have "2 * 2 ^ k \<le> n" "n < 2 * (2 * 2 ^ k)" by linarith+
    then show ?thesis by (simp add: bl k)
  qed
qed

lemma bit_length_le: "n < 2 ^ k \<Longrightarrow> bit_length n \<le> k"
proof (cases "n = 0")
  case True
  then show ?thesis by simp
next
  case False
  assume "n < 2 ^ k"
  with bit_length_bounds [of n] False have "(2::nat) ^ (bit_length n - 1) < 2 ^ k"
    by (meson le_less_trans neq0_conv)
  then have "bit_length n - 1 < k" by (rule power_less_imp_less_exp [rotated]) simp
  then show ?thesis by simp
qed

lemma round_to_double_exact: "n < 2 ^ 53 \<Longrightarrow> round_to_double n = n"
  by (simp add: round_to_double_def bit_length_le)

lemma round_to_double_bounds:
  assumes "53 < bit_length n"
  defines "sh \<equiv> bit_length n - 53"
  shows "(n div 2 ^ sh) * 2 ^ sh \<le> round_to_double n"
    and "2 * round_to_double n \<le> 2 * n + 2 ^ sh"
    and "2 ^ sh * 2 ^ 52 \<le> n"
proof -
  let ?q = "n div 2 ^ sh" and ?r = "n mod 2 ^ sh" and ?half = "(2::nat) ^ (sh - 1)"
  from assms have sh: "0 < sh" by simp
  then have half: "2 * ?half = 2 ^ sh" by (cases sh) simp_all
  have n: "n = ?q * 2 ^ sh + ?r" by (rule div_mult_mod_eq [symmetric])
  have R: "round_to_double n
      = (if ?r > ?half \<or> (?r = ?half \<and> odd ?q) then ?q + 1 else ?q) * 2 ^ sh"
    using assms(1) by (simp add: round_to_double_def Let_def sh_def)
  show "?q * 2 ^ sh \<le> round_to_double n" unfolding R by simp
  show "2 * round_to_double n \<le> 2 * n + 2 ^ sh"
  proof (cases "?r > ?half \<or> (?r = ?half \<and> odd ?q)")
    case True
    then have "?half \<le> ?r" by auto
    with half have "2 ^ sh \<le> 2 * ?r" by linarith
    moreover from True have "round_to_double n = ?q * 2 ^ sh + 2 ^ sh" unfolding R by simp
    moreover have "2 * n = 2 * (?q * 2 ^ sh) + 2 * ?r" by (subst n) simp
    ultimately show ?thesis by linarith
  next
    case False
    then have "round_to_double n = ?q * 2 ^ sh" unfolding R by simp
    moreover have "?q * 2 ^ sh \<le> n" by simp
    ultimately show ?thesis by linarith
  qed
  from assms(1) have pos: "0 < n" by (cases "n = 0") simp_all
  from assms(1) have "bit_length n - 1 = sh + 52" by (simp add: sh_def)
  with bit_length_bounds [OF pos] have "(2::nat) ^ (sh + 52) \<le> n" by simp
  then show "2 ^ sh * 2 ^ 52 \<le> n" by (simp add: power_add)
qed

lemma fifth_as_double:
  assumes "m < 2 ^ 52"
  shows "round_to_double (m * 3602879701896397) div 2 ^ 54 = m div 5"
proof -
  define c :: nat where "c = 3602879701896397"
  define P :: nat where "P = 2 ^ 54"
  define N where "N = m * c"
  define k where "k = m div 5"
  have c5: "5 * c = P + 1" and c_lt: "c < 2 ^ 52" and c_ge: "2 ^ 51 \<le> c"
    by (simp_all add: c_def P_def)
  have P52: "P = 4 * 2 ^ 52" by (simp add: P_def)
  have m: "5 * k \<le> m" "m \<le> 5 * k + 4" unfolding k_def by linarith+
  have N5: "5 * N = m * P + m"
  proof -
    have "5 * N = m * (5 * c)" by (simp add: N_def)
    also have "\<dots> = m * P + m" by (simp only: c5 distrib_left mult_1_right)
    finally show ?thesis .
  qed
  have lower_N: "k * P \<le> N"
  proof -
    have "5 * (k * P) \<le> m * P" using m(1) by simp
    with N5 show ?thesis by linarith
  qed
  have goal: "round_to_double N div P = k"
  proof (cases "bit_length N \<le> 53")
    case True
    then have R: "round_to_double N = N" by (simp add: round_to_double_def)
    have "N < 2 ^ 53"
    proof (cases "N = 0")
      case False
      with bit_length_bounds [of N] have "N < 2 ^ bit_length N" by simp
      also have "\<dots> \<le> 2 ^ 53" using True by (intro power_increasing) simp_all
      finally show ?thesis .
    qed simp
    then have NP: "N < P" by (simp add: P_def)
    from \<open>N < 2 ^ 53\<close> c_ge have "m * 2 ^ 51 < 2 ^ 53"
      unfolding N_def by (meson le_less_trans mult_le_mono2)
    then have "m < 4" by simp
    then have "k = 0" by (simp add: k_def)
    with R NP show ?thesis by simp
  next
    case False
    then have big: "53 < bit_length N" by simp
    define sh where "sh = bit_length N - 53"
    note b = round_to_double_bounds [OF big, folded sh_def]
    have Nlt: "N < 2 ^ 104"
    proof -
      have "N \<le> m * 2 ^ 52" unfolding N_def using c_lt by simp
      also have "\<dots> < 2 ^ 52 * 2 ^ 52" using assms by simp
      finally show ?thesis by simp
    qed
    then have "bit_length N \<le> 104" by (rule bit_length_le)
    then have sh54: "sh \<le> 54" by (simp add: sh_def)
    then have Pm: "P = 2 ^ (54 - sh) * 2 ^ sh"
      by (simp add: P_def power_add [symmetric])
    have "k * 2 ^ (54 - sh) \<le> N div 2 ^ sh"
    proof -
      have "(k * 2 ^ (54 - sh)) * 2 ^ sh \<le> N" using lower_N Pm by (simp add: mult.assoc)
      then show ?thesis by (simp add: less_eq_div_iff_mult_less_eq)
    qed
    then have "(k * 2 ^ (54 - sh)) * 2 ^ sh \<le> (N div 2 ^ sh) * 2 ^ sh" by simp
    with Pm have "k * P \<le> (N div 2 ^ sh) * 2 ^ sh" by (simp add: mult.assoc)
    with b(1) have lower: "k * P \<le> round_to_double N" by linarith
    have sh_m: "2 ^ sh < m"
    proof -
      from b(3) have "2 ^ sh * 2 ^ 52 \<le> m * c" by (simp add: N_def)
      also have "\<dots> < m * 2 ^ 52"
      proof -
        from big have "0 < N" by (cases "N = 0") simp_all
        then have "0 < m" by (simp add: N_def)
        with c_lt show ?thesis by simp
      qed
      finally show ?thesis by simp
    qed
    have upper: "round_to_double N < (k + 1) * P"
    proof -
      have "10 * round_to_double N \<le> 10 * N + 5 * 2 ^ sh" using b(2) by linarith
      also have "\<dots> < 2 * (m * P + m) + 5 * m"
      proof -
        have "10 * N = 2 * (5 * N)" by simp
        then have "10 * N = 2 * (m * P + m)" by (simp only: N5)
        moreover have "5 * 2 ^ sh < 5 * m" using sh_m by simp
        ultimately show ?thesis by (simp only: add_strict_left_mono)
      qed
      also have "\<dots> \<le> 2 * ((5 * k + 4) * P) + 7 * m"
        using m(2) by (simp add: mult_le_mono1)
      also have "\<dots> \<le> 10 * ((k + 1) * P)"
      proof -
        have "7 * m \<le> 2 * P" using assms P52 by linarith
        then show ?thesis by (simp add: algebra_simps)
      qed
      finally show ?thesis by simp
    qed
    have Ppos: "0 < P" by (simp add: P_def)
    from lower have "k \<le> round_to_double N div P"
      using Ppos by (simp add: less_eq_div_iff_mult_less_eq)
    moreover from upper have "round_to_double N div P < k + 1"
      using Ppos by (simp add: div_less_iff_less_mult)
    ultimately show ?thesis by simp
  qed
  then show ?thesis by (simp add: N_def c_def P_def k_def)
qed

lemma round_to_double_le: "round_to_double n \<le> 2 ^ bit_length n"
proof (cases "bit_length n \<le> 53")
  case True
  show ?thesis
  proof (cases "n = 0")
    case False
    with bit_length_bounds [of n] True show ?thesis by (simp add: round_to_double_def)
  qed (simp add: round_to_double_def)
next
  case False
  define sh where "sh = bit_length n - 53"
  from False have bl: "bit_length n = 53 + sh" by (simp add: sh_def)
  from False have pos: "0 < n" by (cases "n = 0") simp_all
  from bit_length_bounds [OF pos] have "n < 2 ^ 53 * 2 ^ sh" by (simp add: bl power_add)
  then have "n div 2 ^ sh < 2 ^ 53" by (simp add: div_less_iff_less_mult)
  then have "(if n mod 2 ^ sh > 2 ^ (sh - 1) \<or> (n mod 2 ^ sh = 2 ^ (sh - 1) \<and> odd (n div 2 ^ sh))
              then n div 2 ^ sh + 1 else n div 2 ^ sh) \<le> 2 ^ 53"
    by simp
  then have "(if n mod 2 ^ sh > 2 ^ (sh - 1) \<or> (n mod 2 ^ sh = 2 ^ (sh - 1) \<and> odd (n div 2 ^ sh))
              then n div 2 ^ sh + 1 else n div 2 ^ sh) * 2 ^ sh \<le> 2 ^ 53 * 2 ^ sh"
    by (rule mult_le_mono1)
  with False show ?thesis
    by (simp add: round_to_double_def Let_def sh_def [symmetric] bl power_add)
qed

lemma float_of_int_returns:
  assumes "\<bar>n\<bar> < 2 ^ 1023"
  shows "float_of_int n = Returns (sgn n * int (round_to_double (nat \<bar>n\<bar>)))"
proof -
  from assms have "nat \<bar>n\<bar> < 2 ^ 1023"
    by (metis nat_less_iff abs_ge_zero of_nat_numeral of_nat_power)
  then have "bit_length (nat \<bar>n\<bar>) \<le> 1023" by (rule bit_length_le)
  then have "(2::nat) ^ bit_length (nat \<bar>n\<bar>) \<le> 2 ^ 1023" by (intro power_increasing) simp_all
  with round_to_double_le [of "nat \<bar>n\<bar>"] have "round_to_double (nat \<bar>n\<bar>) \<le> 2 ^ 1023"
    by (rule le_trans)
  moreover have "(2::nat) ^ 1023 < 2 ^ 1024" by (intro power_strict_increasing) simp_all
  ultimately have "\<not> 2 ^ 1024 \<le> round_to_double (nat \<bar>n\<bar>)" by linarith
  then show ?thesis by (simp add: float_of_int_def Let_def)
qed

lemma items_to_remove_fifth:
  assumes "0 \<le> m" and "m < 2 ^ 52"
  shows "items_to_remove m = Returns (m div 5)"
proof -
  define k where "k = nat m"
  from assms have m: "m = int k" and k: "k < 2 ^ 52"
    by (simp_all add: k_def nat_less_iff)
  from k have k53: "k < 2 ^ 53" by simp
  from k have "\<bar>m\<bar> < 2 ^ 1023"
  proof -
    have "(2::nat) ^ 52 \<le> 2 ^ 1023" by (intro power_increasing) simp_all
    with k have "k < 2 ^ 1023" by linarith
    then show ?thesis unfolding m by (simp add: of_nat_less_iff [of k "2 ^ 1023", simplified])
  qed
  from float_of_int_returns [OF this] have f: "float_of_int m = Returns (sgn m * int k)"
    by (simp add: m round_to_double_exact [OF k53])
  show ?thesis
  proof (cases "k = 0")
    case True
    with f show ?thesis by (simp add: items_to_remove_def m round_to_double_exact)
  next
    case False
    then have "sgn m = 1" by (simp add: m)
    with f have "float_of_int m = Returns (int k)" by simp
    moreover have "int (round_to_double (k * 3602879701896397)) div 18014398509481984 = int k div 5"
      using arg_cong [OF fifth_as_double [OF k], of int] by (simp add: zdiv_int)
    ultimately show ?thesis
      using False by (simp add: items_to_remove_def m)
  qed
qed

lemma items_to_remove_negative:
  assumes "m < 0"
  shows "items_to_remove m = Raises OverflowError \<or> (\<exists>n\<le>0. items_to_remove m = Returns n)"
proof (cases "float_of_int m")
  case (Raises e)
  then have "e = OverflowError" by (simp add: float_of_int_def Let_def split: if_splits)
  with Raises show ?thesis by (simp add: items_to_remove_def)
next
  case (Returns x)
  with assms have "x \<le> 0"
    by (auto simp: float_of_int_def Let_def split: if_splits)
  then have "sgn x * int (round_to_double (nat \<bar>x\<bar> * 3602879701896397) div 2 ^ 54) \<le> 0"
    by (simp add: mult_le_0_iff sgn_if)
  with Returns show ?thesis by (simp add: items_to_remove_def)
qed

lemma items_to_remove_returns:
  assumes "\<bar>m\<bar> < 2 ^ 1023"
  shows "\<exists>n. items_to_remove m = Returns n"
  using float_of_int_returns [OF assms] by (simp add: items_to_remove_def)

lemma bit_length_power: "bit_length (2 ^ k) = Suc k"
proof (induction k)
  case 0
  then show ?case by (simp add: bit_length.simps [of 1] bit_length.simps [of "Suc 0"])
next
  case (Suc k)
  have "bit_length (2 ^ Suc k) = Suc (bit_length (2 ^ Suc k div 2))"
    by (subst bit_length.simps) simp
  with Suc show ?case by simp
qed

lemma round_to_double_power: "round_to_double (2 ^ k) = 2 ^ k"
proof (cases "Suc k \<le> 53")
  case True
  then show ?thesis by (simp add: round_to_double_def bit_length_power)
next
  case False
  define sh where "sh = Suc k - 53"
  from False have k: "k = 52 + sh" and sh: "0 < sh" by (simp_all add: sh_def)
  have d: "(2::nat) ^ k div 2 ^ sh = 2 ^ 52" and r: "(2::nat) ^ k mod 2 ^ sh = 0"
    by (simp_all add: k power_add)
  from False d r sh show ?thesis
    by (simp add: round_to_double_def bit_length_power Let_def sh_def [symmetric])
       (simp add: k power_add)
qed

lemma items_to_remove_overflow: "items_to_remove (- (2 ^ 1024)) = Raises OverflowError"
proof -
  have "nat \<bar>- (2 ^ 1024) :: int\<bar> = 2 ^ 1024"
    by (simp add: nat_power_eq)
  then have "round_to_double (nat \<bar>- (2 ^ 1024) :: int\<bar>) = 2 ^ 1024"
    by (simp only: round_to_double_power)
  then show ?thesis
    by (simp only: items_to_remove_def float_of_int_def Let_def) simp
qed

text \<open>The conversion overflows from \<open>2 ^ 1024 - 2 ^ 970\<close> on, the midpoint between the largest double and \<open>2 ^ 1024\<close>.\<close>

lemma round_to_double_no_overflow:
  assumes "n < 2 ^ 1024 - 2 ^ 970"
  shows "round_to_double n < 2 ^ 1024"
proof (cases "bit_length n \<le> 53")
  case True
  then have "round_to_double n = n" by (simp add: round_to_double_def)
  with assms show ?thesis by simp
next
  case False
  then have big: "53 < bit_length n" by simp
  define A :: nat where "A = 2 ^ 1024"
  define a :: nat where "a = 2 ^ 970"
  have aA: "a \<le> A" unfolding a_def A_def by (rule power_increasing) simp_all
  from assms have n: "n < A - a" by (simp add: A_def a_def)
  then have "n < 2 ^ 1024" by (simp add: A_def)
  then have "bit_length n \<le> 1024" by (rule bit_length_le)
  then have "bit_length n - 53 \<le> 971" by simp
  then have "(2::nat) ^ (bit_length n - 53) \<le> 2 ^ 971" by (intro power_increasing) simp_all
  also have "(2::nat) ^ 971 = 2 * a" by (simp add: a_def)
  finally have sh: "(2::nat) ^ (bit_length n - 53) \<le> 2 * a" .
  from round_to_double_bounds(2) [OF big] sh
  have "2 * round_to_double n \<le> 2 * n + 2 * a" by linarith
  with n aA have "round_to_double n < A" by linarith
  then show ?thesis by (simp add: A_def)
qed

lemma round_to_double_overflow:
  assumes "2 ^ 1024 - 2 ^ 970 \<le> n"
  shows "2 ^ 1024 \<le> round_to_double n"
proof -
  define a :: nat where "a = 2 ^ 970"
  have A: "(2::nat) ^ 1024 = 2 ^ 53 * (2 * a)" and a2: "(2::nat) ^ 971 = 2 * a"
    and a23: "(2::nat) ^ 1023 = 2 ^ 52 * (2 * a)"
    by (simp_all add: a_def)
  have apos: "0 < a" by (simp add: a_def)
  from assms have T: "(2 ^ 53 - 1) * (2 * a) + a \<le> n"
    unfolding A a_def [symmetric] by (simp add: algebra_simps)
  have "(2::nat) ^ 1023 \<le> (2 ^ 53 - 1) * (2 * a) + a" unfolding a23 by simp
  with T have lower: "2 ^ 1023 \<le> n" by linarith
  then have pos: "0 < n" by (cases "n = 0") simp_all
  have bl: "1023 < bit_length n"
  proof (rule ccontr)
    assume "\<not> 1023 < bit_length n"
    then have "bit_length n \<le> 1023" by simp
    then have "(2::nat) ^ bit_length n \<le> 2 ^ 1023" by (intro power_increasing) simp_all
    with bit_length_bounds [OF pos] lower show False by linarith
  qed
  then have big: "53 < bit_length n" by simp
  define sh where "sh = bit_length n - 53"
  note b = round_to_double_bounds [OF big, folded sh_def]
  show ?thesis
  proof (cases "n < 2 ^ 1024")
    case False
    then have "2 ^ 1024 \<le> n" by simp
    have "1024 < bit_length n"
    proof (rule ccontr)
      assume "\<not> 1024 < bit_length n"
      then have "bit_length n \<le> 1024" by simp
      then have "(2::nat) ^ bit_length n \<le> 2 ^ 1024" by (intro power_increasing) simp_all
      with bit_length_bounds [OF pos] False show False by linarith
    qed
    then have "1024 \<le> sh + 52" by (simp add: sh_def)
    then have "(2::nat) ^ 1024 \<le> 2 ^ (sh + 52)" by (intro power_increasing) simp_all
    also have "\<dots> = 2 ^ 52 * 2 ^ sh" by (simp add: power_add)
    also have "\<dots> \<le> (n div 2 ^ sh) * 2 ^ sh"
    proof -
      from b(3) have "2 ^ 52 * 2 ^ sh \<le> n" by (simp add: mult.commute)
      then have "(2 ^ 52 * 2 ^ sh) div 2 ^ sh \<le> n div 2 ^ sh" by (rule div_le_mono)
      then have "2 ^ 52 \<le> n div 2 ^ sh" by simp
      then show ?thesis by simp
    qed
    also note b(1)
    finally show ?thesis .
  next
    case True
    then have "bit_length n \<le> 1024" by (rule bit_length_le)
    with bl have "bit_length n = 1024" by simp
    then have sh: "sh = 971" by (simp add: sh_def)
    let ?q = "n div (2 * a)" and ?r = "n mod (2 * a)"
    from True have "n < 2 ^ 53 * (2 * a)" unfolding A .
    then have q_lt: "?q < 2 ^ 53" using apos by (simp add: less_mult_imp_div_less)
    from T have "((2 ^ 53 - 1) * (2 * a) + a) div (2 * a) \<le> ?q" by (rule div_le_mono)
    moreover have "((2 ^ 53 - 1) * (2 * a) + a) div (2 * a) = 2 ^ 53 - 1"
      using apos by simp
    ultimately have "2 ^ 53 - 1 \<le> ?q" by simp
    with q_lt have q: "?q = 2 ^ 53 - 1" by simp
    then have odd_q: "odd ?q" by simp
    have "n = ?q * (2 * a) + ?r" by (rule div_mult_mod_eq [symmetric])
    with T q have r: "a \<le> ?r" by simp
    have e: "(2::nat) * 2 ^ 970 = 2 ^ 971" by simp
    from r odd_q have c: "?r > a \<or> (?r = a \<and> odd ?q)" by auto
    have c': "2 ^ 970 < n mod 2 ^ 971 \<or> (n mod 2 ^ 971 = 2 ^ 970 \<and> odd (n div 2 ^ 971))"
      using c unfolding a_def e .
    have R: "round_to_double n
        = (if 2 ^ 970 < n mod 2 ^ 971 \<or> (n mod 2 ^ 971 = 2 ^ 970 \<and> odd (n div 2 ^ 971))
           then n div 2 ^ 971 + 1 else n div 2 ^ 971) * 2 ^ 971"
      using big \<open>bit_length n = 1024\<close> by (simp add: round_to_double_def Let_def)
    from c' have "round_to_double n = (n div 2 ^ 971 + 1) * 2 ^ 971"
      unfolding R by (simp only: if_True)
    then have "round_to_double n = (?q + 1) * (2 * a)" unfolding a2 .
    with q show ?thesis unfolding A by simp
  qed
qed

lemma round_to_double_overflow_iff:
  "2 ^ 1024 \<le> round_to_double n \<longleftrightarrow> 2 ^ 1024 - 2 ^ 970 \<le> n"
  using round_to_double_overflow [of n] round_to_double_no_overflow [of n] by force


lemma overflow_threshold_pos: "(0::int) < 2 ^ 1024 - 2 ^ 970"
proof -
  have "(2::int) ^ 970 < 2 ^ 1024" by (rule power_strict_increasing) simp_all
  then show ?thesis by simp
qed

lemma overflow_threshold_int: "int (2 ^ 1024 - 2 ^ 970) = 2 ^ 1024 - 2 ^ 970"
proof -
  have "(2::nat) ^ 970 \<le> 2 ^ 1024" by (rule power_increasing) simp_all
  then show ?thesis by (simp add: of_nat_diff)
qed

lemma float_of_int_overflow_iff:
  "float_of_int n = Raises OverflowError \<longleftrightarrow> 2 ^ 1024 - 2 ^ 970 \<le> \<bar>n\<bar>"
proof -
  have "(2 ^ 1024 - 2 ^ 970 \<le> nat \<bar>n\<bar>) = (int (2 ^ 1024 - 2 ^ 970) \<le> \<bar>n\<bar>)"
    by (rule le_nat_iff) simp
  then have "(2 ^ 1024 \<le> round_to_double (nat \<bar>n\<bar>)) = (2 ^ 1024 - 2 ^ 970 \<le> \<bar>n\<bar>)"
    unfolding round_to_double_overflow_iff overflow_threshold_int .
  then show ?thesis by (simp add: float_of_int_def Let_def)
qed

lemma float_of_int_cases:
  "float_of_int n = Raises OverflowError \<or> (\<exists>x. float_of_int n = Returns x)"
  by (simp add: float_of_int_def Let_def)

lemma items_to_remove_overflow_iff:
  "items_to_remove m = Raises OverflowError \<longleftrightarrow> 2 ^ 1024 - 2 ^ 970 \<le> \<bar>m\<bar>"
  using float_of_int_cases [of m] float_of_int_overflow_iff [of m]
  by (auto simp: items_to_remove_def)

subsection \<open>Eviction\<close>

lemma items_to_remove_le: "m < int n \<Longrightarrow> nat (m div 5) \<le> n"
  by linarith

lemma manage_cache_not_exceeded:
  "\<not> m < int (length (translation_cache s)) \<Longrightarrow> manage_cache m s = (Returns (), s)"
  by (simp add: manage_cache_def)

lemma manage_cache_fifth:
  assumes "m < int (length (translation_cache s))" and "0 \<le> m"
    and "length (translation_cache s) < 2 ^ 52"
  shows "manage_cache m s
         = (Returns (), s\<lparr>translation_cache := drop (nat (m div 5)) (translation_cache s)\<rparr>)"
proof -
  from assms(3) have "int (length (translation_cache s)) < int (2 ^ 52)"
    by (simp only: of_nat_less_iff)
  then have "int (length (translation_cache s)) < 2 ^ 52" by simp
  with assms(1) have "m < 2 ^ 52" by (rule less_trans)
  from items_to_remove_fifth [OF assms(2) this]
  have i: "items_to_remove m = Returns (m div 5)" .
  have "length [0 ..< nat (m div 5)] \<le> length (translation_cache s)"
    using items_to_remove_le [OF assms(1)] by simp
  from evict_drop_gen [OF this] assms(1) i show ?thesis
    by (simp add: manage_cache_def)
qed

lemma manage_cache_negative:
  assumes "m < 0"
  shows "snd (manage_cache m s) = s"
    and "- (2 ^ 1023) < m \<Longrightarrow> manage_cache m s = (Returns (), s)"
proof -
  from assms have ex: "m < int (length (translation_cache s))" by linarith
  from items_to_remove_negative [OF assms] ex show "snd (manage_cache m s) = s"
    by (auto simp: manage_cache_def)
  assume "- (2 ^ 1023) < m"
  with assms have "\<bar>m\<bar> < 2 ^ 1023" by linarith
  from items_to_remove_returns [OF this] items_to_remove_negative [OF assms] ex
  show "manage_cache m s = (Returns (), s)"
    by (auto simp: manage_cache_def)
qed

lemma manage_cache_state:
  assumes "length (translation_cache s) < 2 ^ 52"
  shows "snd (manage_cache m s)
         = s\<lparr>translation_cache :=
              (if int (length (translation_cache s)) > m
               then drop (nat (m div 5)) (translation_cache s)
               else translation_cache s)\<rparr>"
proof (cases "m < int (length (translation_cache s))")
  case False
  then show ?thesis by (simp add: manage_cache_not_exceeded)
next
  case True
  show ?thesis
  proof (cases "0 \<le> m")
    case True
    from manage_cache_fifth [OF \<open>m < int (length (translation_cache s))\<close> True assms]
      \<open>m < int (length (translation_cache s))\<close>
    show ?thesis by simp
  next
    case False
    then have neg: "m < 0" by simp
    then have "nat (m div 5) = 0" by simp
    with manage_cache_negative(1) [OF neg, of s] True show ?thesis by simp
  qed
qed

lemma manage_cache_returns:
  assumes "length (translation_cache s) < 2 ^ 52" and "- (2 ^ 1023) < m"
  shows "fst (manage_cache m s) = Returns ()"
proof (cases "m < int (length (translation_cache s))")
  case False
  then show ?thesis by (simp add: manage_cache_not_exceeded)
next
  case True
  show ?thesis
  proof (cases "0 \<le> m")
    case nonneg: True
    from manage_cache_fifth [OF True nonneg assms(1)] show ?thesis by simp
  next
    case False
    then have "m < 0" by simp
    from manage_cache_negative(2) [OF this assms(2), of s] show ?thesis by simp
  qed
qed

lemma manage_cache_overflow: "manage_cache (- (2 ^ 1024)) s = (Raises OverflowError, s)"
proof -
  have "(- (2 ^ 1024) :: int) < 0" by simp
  then have "- (2 ^ 1024) < int (length (translation_cache s))" by linarith
  then show ?thesis
    by (simp only: manage_cache_def items_to_remove_overflow if_True outcome.case)
qed

lemma dict_set_fresh: "k \<notin> set (map fst d) \<Longrightarrow> dict_set k v d = d @ [(k, v)]"
  by (induction d) auto

lemma fold_dict_set_distinct:
  "distinct (map fst d @ map fst kvs) \<Longrightarrow>
   fold (\<lambda>kv. dict_set (fst kv) (snd kv)) kvs d = d @ kvs"
proof (induction kvs arbitrary: d)
  case Nil
  then show ?case by simp
next
  case (Cons kv kvs)
  then have fresh: "fst kv \<notin> set (map fst d)" by auto
  from Cons.prems have "distinct (map fst (d @ [kv]) @ map fst kvs)" by auto
  from Cons.IH [OF this] fresh show ?case
    by (simp add: dict_set_fresh)
qed

lemma translate_cached_hit:
  "map_of (translation_cache s) text = Some tr \<Longrightarrow>
   translate_cached env text s = (Returns tr, log [Print (MsgTranslationCached tr)] s)"
  by (simp add: translate_cached_def)

lemma manage_cache_raises_iff:
  assumes "length (translation_cache s) < 2 ^ 52"
  shows "fst (manage_cache m s)
         = (if m \<le> - (2 ^ 1024 - 2 ^ 970) then Raises OverflowError else Returns ())"
proof (cases "m < 0")
  case False
  with overflow_threshold_pos have no: "\<not> m \<le> - (2 ^ 1024 - 2 ^ 970)" by linarith
  from False have "- (2 ^ 1023) < m"
    by (intro less_le_trans [of "- (2 ^ 1023)" 0 m]) simp_all
  from manage_cache_returns [OF assms this] no show ?thesis by simp
next
  case True
  then have ex: "m < int (length (translation_cache s))" by linarith
  from True have iff: "(2 ^ 1024 - 2 ^ 970 \<le> \<bar>m\<bar>) = (m \<le> - (2 ^ 1024 - 2 ^ 970))" by linarith
  show ?thesis
  proof (cases "m \<le> - (2 ^ 1024 - 2 ^ 970)")
    case over: True
    with iff items_to_remove_overflow_iff [of m]
    have "items_to_remove m = Raises OverflowError" by simp
    with ex over show ?thesis by (simp only: manage_cache_def if_True outcome.case fst_conv)
  next
    case under: False
    with iff items_to_remove_overflow_iff [of m]
    have "items_to_remove m \<noteq> Raises OverflowError" by simp
    with items_to_remove_negative [OF True] obtain n where "n \<le> 0" "items_to_remove m = Returns n"
      by blast
    with ex under show ?thesis by (simp add: manage_cache_def del: power_numeral)
  qed
qed

lemma manage_cache_small:
  assumes "m < 5"
  shows "manage_cache m s
         = ((if m \<le> - (2 ^ 1024 - 2 ^ 970) then Raises OverflowError else Returns ()), s)"
proof (cases "m < 0")
  case True
  have "snd (manage_cache m s) = s" by (rule manage_cache_negative(1) [OF True])
  moreover have "fst (manage_cache m s)
         = (if m \<le> - (2 ^ 1024 - 2 ^ 970) then Raises OverflowError else Returns ())"
  proof -
    from True have ex: "m < int (length (translation_cache s))" by linarith
    from True have iff: "(2 ^ 1024 - 2 ^ 970 \<le> \<bar>m\<bar>) = (m \<le> - (2 ^ 1024 - 2 ^ 970))" by linarith
    show ?thesis
    proof (cases "m \<le> - (2 ^ 1024 - 2 ^ 970)")
      case over: True
      with iff items_to_remove_overflow_iff [of m]
      have "items_to_remove m = Raises OverflowError" by simp
      with ex over show ?thesis by (simp only: manage_cache_def if_True outcome.case fst_conv)
    next
      case under: False
      with iff items_to_remove_overflow_iff [of m]
      have "items_to_remove m \<noteq> Raises OverflowError" by simp
      with items_to_remove_negative [OF True] obtain n where "n \<le> 0" "items_to_remove m = Returns n"
        by blast
      with ex under show ?thesis by (simp add: manage_cache_def del: power_numeral)
    qed
  qed
  ultimately show ?thesis by (cases "manage_cache m s") simp
next
  case nonneg: False
  with overflow_threshold_pos have no: "\<not> m \<le> - (2 ^ 1024 - 2 ^ 970)" by linarith
  have "manage_cache m s = (Returns (), s)"
  proof (cases "m < int (length (translation_cache s))")
    case False
    then show ?thesis by (simp add: manage_cache_not_exceeded)
  next
    case True
    from nonneg assms have "m < 2 ^ 52" "0 \<le> m" "m div 5 = 0" by simp_all
    from items_to_remove_fifth [OF this(2) this(1)] this(3) True show ?thesis
      by (simp add: manage_cache_def)
  qed
  with no show ?thesis by (simp only: if_False)
qed

text \<open>
  Claim C3. On a cache with more than \<open>max_cache_size\<close> entries (1000 by default) one
  call of \<open>manage_cache\<close> removes the entries at the front of the dictionary, the ones
  inserted first, a fifth of the threshold of them, and keeps the rest in order; on a
  cache that does not exceed the threshold it removes nothing. This holds for every cache
  of fewer than \<open>2 ^ 52\<close> entries and every threshold, and the call returns normally
  unless the threshold is a negative number too large to convert to a float, from
  \<open>- (2 ^ 1024 - 2 ^ 970)\<close> downwards, where it raises \<open>OverflowError\<close>. Distinct
  keys inserted one after the other are kept in the order of insertion, so with a
  threshold of 10 and 11 such entries one call removes the 2 oldest and the 9 newest
  remain. A lookup that hits does not move the entry: the order is the order of
  insertion, not of use.
\<close>

theorem manage_cache_evicts_oldest:
  "(length (translation_cache s) < 2 ^ 52 \<longrightarrow>
      snd (manage_cache m s)
        = s\<lparr>translation_cache :=
             (if int (length (translation_cache s)) > m
              then drop (nat (m div 5)) (translation_cache s)
              else translation_cache s)\<rparr>
      \<and> fst (manage_cache m s)
          = (if m \<le> - (2 ^ 1024 - 2 ^ 970) then Raises OverflowError else Returns ()))
   \<and> (1000 < int (length (translation_cache s)) \<and> length (translation_cache s) < 2 ^ 52 \<longrightarrow>
        manage_cache 1000 s = (Returns (), s\<lparr>translation_cache := drop 200 (translation_cache s)\<rparr>))
   \<and> (distinct (map fst kvs) \<longrightarrow> insert_all kvs [] = kvs)
   \<and> (distinct (map fst kvs) \<and> length kvs = 11 \<longrightarrow>
        manage_cache 10 (s\<lparr>translation_cache := insert_all kvs []\<rparr>)
          = (Returns (), s\<lparr>translation_cache := drop 2 kvs\<rparr>)
        \<and> length (drop 2 kvs) = 9)
   \<and> (map_of (translation_cache s) heard \<noteq> None \<longrightarrow>
        translation_cache (snd (translate_cached env heard s)) = translation_cache s)"
proof -
  have ins: "insert_all kvs [] = kvs" if "distinct (map fst kvs)"
    using fold_dict_set_distinct [of "[]" kvs] that by (simp add: insert_all_def)
  have hit: "translation_cache (snd (translate_cached env heard s)) = translation_cache s"
    if "map_of (translation_cache s) heard \<noteq> None"
    using that by (auto simp: translate_cached_hit log_def)
  have default: "manage_cache 1000 s
      = (Returns (), s\<lparr>translation_cache := drop 200 (translation_cache s)\<rparr>)"
    if "1000 < int (length (translation_cache s))" "length (translation_cache s) < 2 ^ 52"
    using manage_cache_fifth [OF that(1) _ that(2)] by simp
  have ex: "manage_cache 10 (s\<lparr>translation_cache := insert_all kvs []\<rparr>)
          = (Returns (), s\<lparr>translation_cache := drop 2 kvs\<rparr>)"
    if "distinct (map fst kvs)" "length kvs = 11"
    using manage_cache_fifth [of 10 "s\<lparr>translation_cache := kvs\<rparr>"] that
    by (simp add: ins)
  have st: "snd (manage_cache m s)
        = s\<lparr>translation_cache :=
             (if int (length (translation_cache s)) > m
              then drop (nat (m div 5)) (translation_cache s)
              else translation_cache s)\<rparr>
      \<and> fst (manage_cache m s)
          = (if m \<le> - (2 ^ 1024 - 2 ^ 970) then Raises OverflowError else Returns ())"
    if "length (translation_cache s) < 2 ^ 52"
    using manage_cache_state [OF that, of m] manage_cache_raises_iff [OF that, of m]
    by (rule conjI)
  show ?thesis
  proof (intro conjI impI)
    show "snd (manage_cache m s)
        = s\<lparr>translation_cache :=
             (if int (length (translation_cache s)) > m
              then drop (nat (m div 5)) (translation_cache s)
              else translation_cache s)\<rparr>"
      if "length (translation_cache s) < 2 ^ 52"
      using st [OF that] by (rule conjunct1)
    show "fst (manage_cache m s)
          = (if m \<le> - (2 ^ 1024 - 2 ^ 970) then Raises OverflowError else Returns ())"
      if "length (translation_cache s) < 2 ^ 52"
      using st [OF that] by (rule conjunct2)
    show "manage_cache 1000 s
        = (Returns (), s\<lparr>translation_cache := drop 200 (translation_cache s)\<rparr>)"
      if "1000 < int (length (translation_cache s)) \<and> length (translation_cache s) < 2 ^ 52"
      using that default by blast
    show "insert_all kvs [] = kvs" if "distinct (map fst kvs)"
      using that by (rule ins)
    show "manage_cache 10 (s\<lparr>translation_cache := insert_all kvs []\<rparr>)
          = (Returns (), s\<lparr>translation_cache := drop 2 kvs\<rparr>)"
      if "distinct (map fst kvs) \<and> length kvs = 11"
      using that ex by blast
    show "length (drop 2 kvs) = 9" if "distinct (map fst kvs) \<and> length kvs = 11"
      using that by simp
    show "translation_cache (snd (translate_cached env heard s)) = translation_cache s"
      if "map_of (translation_cache s) heard \<noteq> None"
      using that by (rule hit)
  qed
qed

theorem manage_cache_evicts_oldest_witness:
  "distinct (map fst eleven_entries) \<and> length eleven_entries = 11
   \<and> manage_cache 10 (session0\<lparr>translation_cache := insert_all eleven_entries []\<rparr>)
       = (Returns (),
          session0\<lparr>translation_cache :=
            [(''three'', ''trois''), (''four'', ''quatre''), (''five'', ''cinq''),
             (''six'', ''six''), (''seven'', ''sept''), (''eight'', ''huit''),
             (''nine'', ''neuf''), (''ten'', ''dix''), (''eleven'', ''onze'')]\<rparr>)
   \<and> length (translation_cache (session0\<lparr>translation_cache := eleven_entries\<rparr>)) < 2 ^ 52
   \<and> snd (manage_cache 12 (session0\<lparr>translation_cache := eleven_entries\<rparr>))
       = session0\<lparr>translation_cache := eleven_entries\<rparr>
   \<and> fst (manage_cache 12 (session0\<lparr>translation_cache := eleven_entries\<rparr>)) = Returns ()
   \<and> map_of (translation_cache (session0\<lparr>translation_cache := eleven_entries\<rparr>)) ''two'' \<noteq> None
   \<and> translation_cache (snd (translate_cached round_hello ''two'' (session0\<lparr>translation_cache := eleven_entries\<rparr>)))
       = eleven_entries"
proof -
  let ?s11 = "session0\<lparr>translation_cache := eleven_entries\<rparr>"
  have d: "distinct (map fst eleven_entries) \<and> length eleven_entries = 11"
    by (simp add: eleven_entries_def)
  have small: "length (translation_cache ?s11) < 2 ^ 52"
    by (simp add: eleven_entries_def)
  have hit: "map_of (translation_cache ?s11) ''two'' \<noteq> None"
    by (simp add: eleven_entries_def)
  have no: "\<not> (12::int) \<le> - (2 ^ 1024 - 2 ^ 970)"
    using overflow_threshold_pos by linarith
  have 1: "manage_cache 10 (session0\<lparr>translation_cache := insert_all eleven_entries []\<rparr>)
       = (Returns (),
          session0\<lparr>translation_cache :=
            [(''three'', ''trois''), (''four'', ''quatre''), (''five'', ''cinq''),
             (''six'', ''six''), (''seven'', ''sept''), (''eight'', ''huit''),
             (''nine'', ''neuf''), (''ten'', ''dix''), (''eleven'', ''onze'')]\<rparr>)"
    using manage_cache_evicts_oldest [where s = session0 and kvs = eleven_entries,
        THEN conjunct2, THEN conjunct2, THEN conjunct2, THEN conjunct1] d
    by (simp add: eleven_entries_def)
  note T = manage_cache_evicts_oldest [where s = ?s11 and m = 12, THEN conjunct1, THEN mp, OF small]
  have 2: "snd (manage_cache 12 ?s11) = ?s11"
    using T [THEN conjunct1] by (simp add: eleven_entries_def)
  have 3: "fst (manage_cache 12 ?s11) = Returns ()"
    using T [THEN conjunct2] no by (simp only: if_False)
  have 4: "translation_cache (snd (translate_cached round_hello ''two'' ?s11)) = eleven_entries"
    using manage_cache_evicts_oldest
        [where s = ?s11 and heard = "''two''" and env = round_hello,
         THEN conjunct2, THEN conjunct2, THEN conjunct2, THEN conjunct2] hit
    by simp
  from d small hit 1 2 3 4 show ?thesis by simp
qed

text \<open>
  Claim C10. On a cache with strictly more than \<open>max_cache_size\<close> entries (and fewer
  than \<open>2 ^ 52\<close>) one call removes exactly \<open>floor (max_cache_size / 5)\<close> entries (none
  when that number is not positive): the count comes from the threshold, not from the
  number of entries. When the cache exceeds the threshold by more than that count it is
  still above the threshold after the call. For every threshold below 5 the call
  removes nothing and leaves the cache as it is; it then returns normally, except that
  it raises \<open>OverflowError\<close> for a negative threshold too large to convert to a float,
  from \<open>- (2 ^ 1024 - 2 ^ 970)\<close> downwards.
\<close>

theorem manage_cache_removes_fifth_of_threshold:
  "(m < int (length (translation_cache s)) \<and> length (translation_cache s) < 2 ^ 52 \<longrightarrow>
      snd (manage_cache m s)
        = s\<lparr>translation_cache := drop (nat (m div 5)) (translation_cache s)\<rparr>
      \<and> nat (m div 5) \<le> length (translation_cache s)
      \<and> length (translation_cache (snd (manage_cache m s)))
          = length (translation_cache s) - nat (m div 5)
      \<and> (m div 5 < int (length (translation_cache s)) - m \<longrightarrow>
           m < int (length (translation_cache (snd (manage_cache m s)))))
      \<and> fst (manage_cache m s)
          = (if m \<le> - (2 ^ 1024 - 2 ^ 970) then Raises OverflowError else Returns ()))
   \<and> (m < 5 \<longrightarrow> snd (manage_cache m s) = s)
   \<and> (m < 5 \<longrightarrow>
        manage_cache m s
          = ((if m \<le> - (2 ^ 1024 - 2 ^ 970) then Raises OverflowError else Returns ()), s))
   \<and> manage_cache (- (2 ^ 1024)) s = (Raises OverflowError, s)"
proof -
  have small: "manage_cache m s
          = ((if m \<le> - (2 ^ 1024 - 2 ^ 970) then Raises OverflowError else Returns ()), s)"
    if "m < 5"
    using that by (rule manage_cache_small)
  have exceeded: "snd (manage_cache m s)
        = s\<lparr>translation_cache := drop (nat (m div 5)) (translation_cache s)\<rparr>
      \<and> nat (m div 5) \<le> length (translation_cache s)
      \<and> length (translation_cache (snd (manage_cache m s)))
          = length (translation_cache s) - nat (m div 5)
      \<and> (m div 5 < int (length (translation_cache s)) - m \<longrightarrow>
           m < int (length (translation_cache (snd (manage_cache m s)))))
      \<and> fst (manage_cache m s)
          = (if m \<le> - (2 ^ 1024 - 2 ^ 970) then Raises OverflowError else Returns ())"
    if "m < int (length (translation_cache s)) \<and> length (translation_cache s) < 2 ^ 52"
  proof -
    from that have ex: "m < int (length (translation_cache s))"
      and sz: "length (translation_cache s) < 2 ^ 52" by simp_all
    from manage_cache_state [OF sz, of m] ex
    have st: "snd (manage_cache m s)
        = s\<lparr>translation_cache := drop (nat (m div 5)) (translation_cache s)\<rparr>" by simp
    have le: "nat (m div 5) \<le> length (translation_cache s)" using ex by (rule items_to_remove_le)
    have len: "length (translation_cache (snd (manage_cache m s)))
          = length (translation_cache s) - nat (m div 5)"
      unfolding st by simp
    have above: "m < int (length (translation_cache (snd (manage_cache m s))))"
      if "m div 5 < int (length (translation_cache s)) - m"
      unfolding len using that ex by linarith
    note fst = manage_cache_raises_iff [OF sz, of m]
    show ?thesis
    proof (intro conjI impI)
      show "snd (manage_cache m s)
        = s\<lparr>translation_cache := drop (nat (m div 5)) (translation_cache s)\<rparr>" by (rule st)
      show "nat (m div 5) \<le> length (translation_cache s)" by (rule le)
      show "length (translation_cache (snd (manage_cache m s)))
          = length (translation_cache s) - nat (m div 5)" by (rule len)
      show "m < int (length (translation_cache (snd (manage_cache m s))))"
        if "m div 5 < int (length (translation_cache s)) - m"
        using that by (rule above)
      show "fst (manage_cache m s)
          = (if m \<le> - (2 ^ 1024 - 2 ^ 970) then Raises OverflowError else Returns ())"
        by (rule fst)
    qed
  qed
  have unchanged: "snd (manage_cache m s) = s" if "m < 5"
    unfolding small [OF that] by (rule snd_conv)
  show ?thesis
  proof (intro conjI)
    show "m < int (length (translation_cache s)) \<and> length (translation_cache s) < 2 ^ 52 \<longrightarrow>
      snd (manage_cache m s)
        = s\<lparr>translation_cache := drop (nat (m div 5)) (translation_cache s)\<rparr>
      \<and> nat (m div 5) \<le> length (translation_cache s)
      \<and> length (translation_cache (snd (manage_cache m s)))
          = length (translation_cache s) - nat (m div 5)
      \<and> (m div 5 < int (length (translation_cache s)) - m \<longrightarrow>
           m < int (length (translation_cache (snd (manage_cache m s)))))
      \<and> fst (manage_cache m s)
          = (if m \<le> - (2 ^ 1024 - 2 ^ 970) then Raises OverflowError else Returns ())"
      using exceeded by (rule impI)
    show "m < 5 \<longrightarrow> snd (manage_cache m s) = s"
      using unchanged by (rule impI)
    show "m < 5 \<longrightarrow>
        manage_cache m s
          = ((if m \<le> - (2 ^ 1024 - 2 ^ 970) then Raises OverflowError else Returns ()), s)"
      using small by (rule impI)
    show "manage_cache (- (2 ^ 1024)) s = (Raises OverflowError, s)"
      by (rule manage_cache_overflow)
  qed
qed

theorem manage_cache_removes_fifth_of_threshold_witness:
  "10 < int (length (translation_cache (session0\<lparr>translation_cache := thirteen_entries\<rparr>)))
   \<and> length (translation_cache (session0\<lparr>translation_cache := thirteen_entries\<rparr>)) < 2 ^ 52
   \<and> manage_cache 10 (session0\<lparr>translation_cache := thirteen_entries\<rparr>)
       = (Returns (), session0\<lparr>translation_cache := drop 2 thirteen_entries\<rparr>)
   \<and> (10::int) div 5 < int (length thirteen_entries) - 10
   \<and> 10 < int (length (translation_cache
              (snd (manage_cache 10 (session0\<lparr>translation_cache := thirteen_entries\<rparr>)))))
   \<and> (4::int) < 5
   \<and> manage_cache 4 (session0\<lparr>translation_cache := eleven_entries\<rparr>)
       = (Returns (), session0\<lparr>translation_cache := eleven_entries\<rparr>)"
proof -
  let ?s13 = "session0\<lparr>translation_cache := thirteen_entries\<rparr>"
  have h: "10 < int (length (translation_cache ?s13)) \<and> length (translation_cache ?s13) < 2 ^ 52"
    by (simp add: thirteen_entries_def eleven_entries_def)
  have h': "(10::int) div 5 < int (length thirteen_entries) - 10"
    by (simp add: thirteen_entries_def eleven_entries_def)
  have no: "\<not> (10::int) \<le> - (2 ^ 1024 - 2 ^ 970)" "\<not> (4::int) \<le> - (2 ^ 1024 - 2 ^ 970)"
    using overflow_threshold_pos by linarith+
  note T = manage_cache_removes_fifth_of_threshold
    [where m = 10 and s = ?s13, THEN conjunct1, THEN mp, OF h]
  have 1: "snd (manage_cache 10 ?s13) = session0\<lparr>translation_cache := drop 2 thirteen_entries\<rparr>"
    using T [THEN conjunct1] by simp
  have 2: "fst (manage_cache 10 ?s13) = Returns ()"
    using T [THEN conjunct2, THEN conjunct2, THEN conjunct2, THEN conjunct2] no(1)
    by (simp only: if_False)
  have 3: "10 < int (length (translation_cache (snd (manage_cache 10 ?s13))))"
    using T [THEN conjunct2, THEN conjunct2, THEN conjunct2, THEN conjunct1] h' by simp
  from 1 2 have 4: "manage_cache 10 ?s13
      = (Returns (), session0\<lparr>translation_cache := drop 2 thirteen_entries\<rparr>)"
    by (cases "manage_cache 10 ?s13") simp
  have "manage_cache 4 (session0\<lparr>translation_cache := eleven_entries\<rparr>)
       = ((if (4::int) \<le> - (2 ^ 1024 - 2 ^ 970) then Raises OverflowError else Returns ()),
          session0\<lparr>translation_cache := eleven_entries\<rparr>)"
    using manage_cache_removes_fifth_of_threshold
      [where m = 4 and s = "session0\<lparr>translation_cache := eleven_entries\<rparr>",
       THEN conjunct2, THEN conjunct2, THEN conjunct1]
    by simp
  with no(2) have 5: "manage_cache 4 (session0\<lparr>translation_cache := eleven_entries\<rparr>)
       = (Returns (), session0\<lparr>translation_cache := eleven_entries\<rparr>)"
    by (simp only: if_False)
  from h h' 3 4 5 show ?thesis by simp
qed

section \<open>Properties of cleanup\<close>



lemma reached_Nil [simp]: "reached stat [] = []"
  by (simp add: reached_def)

















section \<open>What each function adds to the trace\<close>

lemma log_log: "log b (log a s) = log (a @ b) s"
  by (simp add: log_def)

lemma log_fields [simp]:
  "trace (log evs s) = trace s @ evs"
  "files (log evs s) = files s"
  "translation_cache (log evs s) = translation_cache s"
  "cache_dir (log evs s) = cache_dir s"
  "target_lang (log evs s) = target_lang s"
  "source_lang (log evs s) = source_lang s"
  by (simp_all add: log_def)

lemma appends_refl: "appends P s s"
  by (simp add: appends_def)

lemma appends_trans: "appends P s s1 \<Longrightarrow> appends P s1 s2 \<Longrightarrow> appends P s s2"
  by (auto simp: appends_def)

lemma appends_log: "list_all P evs \<Longrightarrow> appends P s (log evs s)"
  by (simp add: appends_def)

lemma appends_same_trace: "trace s1 = trace s2 \<Longrightarrow> appends P s s1 \<Longrightarrow> appends P s s2"
  by (simp add: appends_def)

lemma appends_log_after: "appends P s s1 \<Longrightarrow> list_all P evs \<Longrightarrow> appends P s (log evs s1)"
  by (auto simp: appends_def)

lemma appends_mono: "appends P s s' \<Longrightarrow> (\<And>ev. P ev \<Longrightarrow> Q ev) \<Longrightarrow> appends Q s s'"
  by (auto simp: appends_def list_all_iff)

lemma synthesize_appends: "appends speech_event s (snd (synthesize a t p s))"
  by (auto simp: synthesize_def Let_def appends_def split: synth_outcome.splits option.splits)

lemma playsound_appends: "appends speech_event s (snd (playsound a p s))"
  by (simp add: playsound_def appends_def)

lemma tts_try_appends: "appends speech_event s (snd (tts_try md5 a t s))"
proof -
  let ?p = "get_audio_filename md5 s t"
  let ?s1 = "log [Exists ?p] s"
  have 1: "appends speech_event s ?s1" by (simp add: appends_log)
  show ?thesis
  proof (cases "file_exists ?p (files s)")
    case True
    then have "tts_try md5 a t s = playsound a ?p ?s1" by (simp add: tts_try_def Let_def)
    with appends_trans [OF 1 playsound_appends] show ?thesis by simp
  next
    case False
    obtain r s2 where syn: "synthesize a t ?p ?s1 = (r, s2)" by (cases "synthesize a t ?p ?s1")
    with synthesize_appends [of ?s1 a t ?p] have 2: "appends speech_event ?s1 s2" by simp
    show ?thesis
    proof (cases r)
      case (Raises e)
      with False syn have "snd (tts_try md5 a t s) = s2" by (simp add: tts_try_def Let_def)
      with appends_trans [OF 1 2] show ?thesis by simp
    next
      case (Returns u)
      with False syn have "tts_try md5 a t s = playsound a ?p s2" by (simp add: tts_try_def Let_def)
      with appends_trans [OF appends_trans [OF 1 2] playsound_appends] show ?thesis by simp
    qed
  qed
qed

lemma tts_attempts_appends: "appends speech_event s (snd (tts_attempts md5 n env t xs s))"
proof (induction xs arbitrary: s)
  case Nil
  then show ?case by (simp add: appends_refl)
next
  case (Cons i xs)
  obtain r s1 where tr: "tts_try md5 (env i) t s = (r, s1)" by (cases "tts_try md5 (env i) t s")
  with tts_try_appends [of s md5 "env i" t] have 1: "appends speech_event s s1" by simp
  show ?case
  proof (cases r)
    case (Returns u)
    with tr 1 show ?thesis by simp
  next
    case (Raises e)
    have a: "appends speech_event s (log [Print (MsgTTSFailed n)] s1)"
      by (rule appends_log_after [OF 1]) simp
    have b: "appends speech_event s (log [Print (MsgRetrying (i + 2) n), Sleep 1] s1)"
      by (rule appends_log_after [OF 1]) simp
    from Raises tr 1 appends_trans [OF a Cons.IH] appends_trans [OF b Cons.IH] b
    show ?thesis by (simp split: sleep_outcome.splits)
  qed
qed

lemma text_to_speech_appends: "appends speech_event s (snd (text_to_speech md5 n env t s))"
  by (simp add: text_to_speech_def tts_attempts_appends)

lemma speech_event_loop_event: "speech_event ev \<Longrightarrow> loop_event ev"
  by (cases ev) simp_all

lemma text_to_speech_appends_loop: "appends loop_event s (snd (text_to_speech md5 n env t s))"
  by (rule appends_mono [OF text_to_speech_appends speech_event_loop_event])

lemma translate_cached_appends: "appends loop_event s (snd (translate_cached env t s))"
  by (auto simp: translate_cached_def appends_def split: option.splits outcome.splits)

lemma try_body_appends: "appends loop_event s (snd (try_body md5 env s))"
proof -
  let ?s1 = "log [Listen 5 10] s"
  have 1: "appends loop_event s ?s1" by (simp add: appends_log)
  show ?thesis
  proof (cases "listen_res env")
    case (Raises e)
    with 1 show ?thesis by (simp add: try_body_def Let_def)
  next
    case L: (Returns au)
    let ?s2 = "log [Recognize au (source_lang ?s1)] ?s1"
    have 2: "appends loop_event s ?s2" by (rule appends_log_after [OF 1]) simp
    show ?thesis
    proof (cases "recognize_res env")
      case (Raises e)
      with L 2 show ?thesis by (simp add: try_body_def Let_def)
    next
      case R: (Returns t)
      let ?s3 = "log [Sleep (1 / 2)] ?s2"
      have 3: "appends loop_event s ?s3" by (rule appends_log_after [OF 2]) simp
      show ?thesis
      proof (cases "throttle_sleep env")
        case Interrupted
        with L R 3 show ?thesis by (simp add: try_body_def Let_def)
      next
        case Slept
        obtain r s4 where tc: "translate_cached env t ?s3 = (r, s4)"
          by (cases "translate_cached env t ?s3")
        with translate_cached_appends [of ?s3 env t] have "appends loop_event ?s3 s4" by simp
        with 3 have 4: "appends loop_event s s4" by (rule appends_trans)
        show ?thesis
        proof (cases r)
          case (Raises e)
          with L R Slept tc 4 show ?thesis by (simp add: try_body_def Let_def)
        next
          case (Returns tr)
          with L R Slept tc have "try_body md5 env s = text_to_speech md5 3 (tts_env env) tr s4"
            by (simp add: try_body_def Let_def)
          with appends_trans [OF 4 text_to_speech_appends_loop] show ?thesis by simp
        qed
      qed
    qed
  qed
qed

lemma iteration_appends: "appends loop_event s (snd (iteration md5 env s))"
proof -
  obtain r s1 where tb: "try_body md5 env s = (r, s1)" by (cases "try_body md5 env s")
  with try_body_appends [of s md5 env] have 1: "appends loop_event s s1" by simp
  have a: "appends loop_event s (log [Print m] s1)" for m
    by (rule appends_log_after [OF 1]) simp
  have b: "appends loop_event s (log [Print MsgUnexpected, Sleep 1] s1)"
    by (rule appends_log_after [OF 1]) simp
  show ?thesis
    using tb 1 a b by (cases r) (simp_all add: iteration_def split: sleep_outcome.splits)
qed

lemma session_loop_appends: "appends loop_event s (snd (session_loop md5 envs s))"
proof (induction envs arbitrary: s)
  case Nil
  then show ?case by (simp add: appends_refl)
next
  case (Cons env envs)
  obtain r s1 where it: "iteration md5 env s = (r, s1)" by (cases "iteration md5 env s")
  with iteration_appends [of s md5 env] have 1: "appends loop_event s s1" by simp
  from it 1 appends_trans [OF 1 Cons.IH] show ?case by (cases r) simp_all
qed

section \<open>Properties of adjust_for_ambient_noise\<close>

lemma calibration_passes_ok:
  "\<forall>i\<in>set xs. passes i = Returns () \<Longrightarrow>
   calibration_passes passes xs s = (Returns (), log (calibration_events xs) s)"
proof (induction xs arbitrary: s)
  case Nil
  then show ?case by (simp add: calibration_events_def log_def)
next
  case (Cons i xs)
  then show ?case by (simp add: calibration_events_def log_log)
qed

lemma calibration_passes_fail:
  "\<forall>j\<in>set ys. passes j = Returns () \<Longrightarrow> passes i = Raises e \<Longrightarrow>
   calibration_passes passes (ys @ i # zs) s
     = (Raises e, log (calibration_events ys @ [AdjustForAmbientNoise 1]) s)"
proof (induction ys arbitrary: s)
  case Nil
  then show ?case by (simp add: calibration_events_def)
next
  case (Cons j ys)
  then show ?case by (simp add: calibration_events_def log_log)
qed

lemma calibration_passes_raises:
  "calibration_passes passes xs s = (Raises e, s') \<Longrightarrow> \<exists>i\<in>set xs. passes i = Raises e"
  by (induction xs arbitrary: s) (auto split: outcome.splits)

lemma adjust_never_raises_Exception:
  assumes "\<forall>i<3. \<forall>e. passes i = Raises e \<longrightarrow> is_Exception e"
  shows "fst (adjust_for_ambient_noise passes s) = Returns ()"
proof -
  obtain r s1 where cp: "calibration_passes passes [0 ..< 3] (log [Print MsgAdjusting] s) = (r, s1)"
    by (cases "calibration_passes passes [0 ..< 3] (log [Print MsgAdjusting] s)")
  show ?thesis
  proof (cases r)
    case (Returns u)
    with cp show ?thesis by (simp add: adjust_for_ambient_noise_def)
  next
    case (Raises e)
    with cp calibration_passes_raises obtain i where "i \<in> set [0 ..< 3]" "passes i = Raises e"
      by blast
    with assms have "is_Exception e" by simp
    with cp Raises show ?thesis by (simp add: adjust_for_ambient_noise_def)
  qed
qed

lemma adjust_raises_only_interrupt:
  "fst (adjust_for_ambient_noise passes s) = Raises e \<Longrightarrow> e = KeyboardInterrupt"
  by (auto simp: adjust_for_ambient_noise_def is_Exception_def split: prod.splits outcome.splits if_splits)


lemma upt_3: "[0 ..< 3] = [0, 1, 2]"
  by (simp add: upt_rec)

lemma sweep_appends: "appends is_unlink s (snd (sweep now stat unlink xs s))"
proof (induction xs arbitrary: s)
  case Nil
  then show ?case by (simp add: appends_refl)
next
  case (Cons f xs)
  have a: "appends is_unlink s (log [Unlink (fst f) r] (s\<lparr>files := fs_remove (fst f) (files s)\<rparr>))" for r
    by (simp add: appends_def)
  have b: "appends is_unlink s (log [Unlink (fst f) r] s)" for r
    by (simp add: appends_def)
  from appends_trans [OF a Cons.IH] appends_trans [OF b Cons.IH] b Cons.IH appends_refl [of is_unlink s]
  show ?case by (simp split: outcome.splits)
qed

lemma cleanup_trace:
  "\<exists>evs. trace (snd (cleanup now stat unlink s)) = trace s @ Glob (cache_dir s) # evs
         \<and> list_all is_unlink evs"
  using sweep_appends [of "log [Glob (cache_dir s)] s" now stat unlink "glob_mp3 (cache_dir s) (files s)"]
  by (auto simp: cleanup_def appends_def)

lemma finally_cleanup_trace:
  "\<exists>evs. trace (run_state (finally_cleanup env pending s)) = trace s @ Glob (cache_dir s) # evs
         \<and> list_all is_unlink evs"
proof -
  obtain r s1 where c: "cleanup (cleanup_time env) (stat_res env) (unlink_res env) s = (r, s1)"
    by (cases "cleanup (cleanup_time env) (stat_res env) (unlink_res env) s")
  with cleanup_trace [of "cleanup_time env" "stat_res env" "unlink_res env" s]
  obtain evs where "trace s1 = trace s @ Glob (cache_dir s) # evs" "list_all is_unlink evs"
    by auto
  moreover from c have "run_state (finally_cleanup env pending s) = s1"
    by (cases r; cases pending) (simp_all add: finally_cleanup_def)
  ultimately show ?thesis by simp
qed


text \<open>The part of \<open>listen_and_translate\<close> inside the outer \<open>try\<close>.\<close>

lemma listen_and_translate_cases:
  obtains (running) s2 where
      "microphone_res env = Returns ()"
      "fst (adjust_for_ambient_noise (calibration_res env) s) = Returns ()"
      "session_loop md5 (rounds env)
         (log [Print MsgListening] (snd (adjust_for_ambient_noise (calibration_res env) s)))
       = (None, s2)"
      "listen_and_translate md5 env s = Running s2"
  | (no_microphone) e where
      "microphone_res env = Raises e"
      "listen_and_translate md5 env s =
         (if e = KeyboardInterrupt then finally_cleanup env None (log [Print MsgStopped] s)
          else finally_cleanup env (Some e) s)"
  | (calibration_interrupted) s1 where
      "microphone_res env = Returns ()"
      "adjust_for_ambient_noise (calibration_res env) s = (Raises KeyboardInterrupt, s1)"
      "listen_and_translate md5 env s = finally_cleanup env None (log [Print MsgStopped] s1)"
  | (loop_left) e s2 where
      "microphone_res env = Returns ()"
      "fst (adjust_for_ambient_noise (calibration_res env) s) = Returns ()"
      "session_loop md5 (rounds env)
         (log [Print MsgListening] (snd (adjust_for_ambient_noise (calibration_res env) s)))
       = (Some e, s2)"
      "listen_and_translate md5 env s =
         (if e = KeyboardInterrupt then finally_cleanup env None (log [Print MsgStopped] s2)
          else finally_cleanup env (Some e) s2)"
proof (cases "microphone_res env")
  case (Raises e)
  then show ?thesis by (intro no_microphone [of e]) (simp_all add: listen_and_translate_def)
next
  case (Returns u)
  obtain r s1 where adj: "adjust_for_ambient_noise (calibration_res env) s = (r, s1)"
    by (cases "adjust_for_ambient_noise (calibration_res env) s")
  show ?thesis
  proof (cases r)
    case (Raises e)
    with adj adjust_raises_only_interrupt [of "calibration_res env" s e]
    have "e = KeyboardInterrupt" by simp
    with Returns adj Raises show ?thesis
      by (intro calibration_interrupted [of s1]) (simp_all add: listen_and_translate_def)
  next
    case r: (Returns u')
    obtain x s2 where lp: "session_loop md5 (rounds env) (log [Print MsgListening] s1) = (x, s2)"
      by (cases "session_loop md5 (rounds env) (log [Print MsgListening] s1)")
    show ?thesis
    proof (cases x)
      case None
      with Returns adj r lp show ?thesis
        by (intro running [of s2]) (simp_all add: listen_and_translate_def)
    next
      case (Some e)
      with Returns adj r lp show ?thesis
        by (intro loop_left [of e s2]) (simp_all add: listen_and_translate_def)
    qed
  qed
qed

lemma finally_cleanup_appends:
  "appends (\<lambda>ev. is_glob ev \<or> is_unlink ev) s (run_state (finally_cleanup env pending s))"
proof -
  from finally_cleanup_trace [of env pending s]
  obtain evs where "trace (run_state (finally_cleanup env pending s))
      = trace s @ Glob (cache_dir s) # evs" "list_all is_unlink evs"
    by blast
  then show ?thesis by (auto simp: appends_def list_all_iff)
qed

lemma listen_and_translate_after_calibration:
  assumes "microphone_res env = Returns ()"
    and "fst (adjust_for_ambient_noise (calibration_res env) s) = Returns ()"
  shows "appends (\<lambda>ev. \<not> is_adjust ev)
           (log [Print MsgListening] (snd (adjust_for_ambient_noise (calibration_res env) s)))
           (run_state (listen_and_translate md5 env s))"
proof -
  let ?s1 = "log [Print MsgListening] (snd (adjust_for_ambient_noise (calibration_res env) s))"
  have loop: "appends (\<lambda>ev. \<not> is_adjust ev) ?s1 (snd (session_loop md5 (rounds env) ?s1))"
    by (rule appends_mono [OF session_loop_appends]) (case_tac ev, simp_all)
  have fin: "appends (\<lambda>ev. \<not> is_adjust ev) s' (run_state (finally_cleanup env pending s'))"
    for pending s'
    by (rule appends_mono [OF finally_cleanup_appends]) (case_tac ev, simp_all)
  show ?thesis
  proof (cases rule: listen_and_translate_cases [of env s md5])
    case (running s2)
    with loop show ?thesis by simp
  next
    case (no_microphone e)
    with assms show ?thesis by simp
  next
    case (calibration_interrupted s1)
    with assms show ?thesis by simp
  next
    case (loop_left e s2)
    from loop loop_left(3) have 1: "appends (\<lambda>ev. \<not> is_adjust ev) ?s1 s2" by simp
    have 2: "appends (\<lambda>ev. \<not> is_adjust ev) ?s1 (log [Print MsgStopped] s2)"
      by (rule appends_log_after [OF 1]) simp
    from appends_trans [OF 1 fin] appends_trans [OF 2 fin] loop_left(4)
    show ?thesis by (simp split: if_splits)
  qed
qed

text \<open>
  Claim C9. Calibration makes three sampling passes of one second each when the audio
  source raises nothing, and \<open>listen_and_translate\<close> makes them, and no other, before
  the first round of the loop. Whatever \<open>Exception\<close> a pass raises is caught: the
  remaining passes are skipped, a warning is printed and the function returns normally,
  so that it never raises an error of the audio source to its caller.
\<close>

theorem calibration_three_passes_never_raises:
  "((\<forall>i<3. passes i = Returns ()) \<longrightarrow>
      adjust_for_ambient_noise passes s
        = (Returns (),
           log [Print MsgAdjusting,
                AdjustForAmbientNoise 1, Print (MsgCalibrating 1),
                AdjustForAmbientNoise 1, Print (MsgCalibrating 2),
                AdjustForAmbientNoise 1, Print (MsgCalibrating 3),
                Print MsgCalibrationComplete] s))
   \<and> ((\<forall>i<3. \<forall>e. passes i = Raises e \<longrightarrow> is_Exception e) \<longrightarrow>
        fst (adjust_for_ambient_noise passes s) = Returns ())
   \<and> (i < 3 \<and> (\<forall>j<i. passes j = Returns ()) \<and> passes i = Raises e \<and> is_Exception e \<longrightarrow>
        adjust_for_ambient_noise passes s
          = (Returns (),
             log (Print MsgAdjusting # calibration_events [0 ..< i]
                    @ [AdjustForAmbientNoise 1, Print MsgCalibrationWarning]) s))
   \<and> (microphone_res env = Returns () \<and> (\<forall>i<3. calibration_res env i = Returns ()) \<longrightarrow>
        (\<exists>evs. trace (run_state (listen_and_translate md5 env s))
                 = trace s @ [Print MsgAdjusting,
                      AdjustForAmbientNoise 1, Print (MsgCalibrating 1),
                      AdjustForAmbientNoise 1, Print (MsgCalibrating 2),
                      AdjustForAmbientNoise 1, Print (MsgCalibrating 3),
                      Print MsgCalibrationComplete, Print MsgListening] @ evs
               \<and> list_all (\<lambda>ev. \<not> is_adjust ev) evs))"
proof -
  have ok: "adjust_for_ambient_noise p s
        = (Returns (),
           log [Print MsgAdjusting,
                AdjustForAmbientNoise 1, Print (MsgCalibrating 1),
                AdjustForAmbientNoise 1, Print (MsgCalibrating 2),
                AdjustForAmbientNoise 1, Print (MsgCalibrating 3),
                Print MsgCalibrationComplete] s)"
    if "\<forall>i<3. p i = Returns ()" for p
  proof -
    from that have "\<forall>i\<in>set [0 ..< 3]. p i = Returns ()" by simp
    from calibration_passes_ok [OF this] show ?thesis
      by (simp add: adjust_for_ambient_noise_def log_log calibration_events_def upt_3)
  qed
  have caught: "adjust_for_ambient_noise passes s
          = (Returns (),
             log (Print MsgAdjusting # calibration_events [0 ..< i]
                    @ [AdjustForAmbientNoise 1, Print MsgCalibrationWarning]) s)"
    if "i < 3" "\<forall>j<i. passes j = Returns ()" "passes i = Raises e" "is_Exception e"
  proof -
    from that(1) have split: "[0 ..< 3] = [0 ..< i] @ i # [Suc i ..< 3]"
      by (metis upt_conv_Cons upt_add_eq_append le0 less_imp_le_nat
          le_add_diff_inverse)
    from that(2) have "\<forall>j\<in>set [0 ..< i]. passes j = Returns ()" by simp
    from calibration_passes_fail [OF this that(3), of "[Suc i ..< 3]"] that(4)
    show ?thesis
      unfolding adjust_for_ambient_noise_def split by (simp add: log_log)
  qed
  have before: "\<exists>evs. trace (run_state (listen_and_translate md5 env s))
                 = trace s @ [Print MsgAdjusting,
                      AdjustForAmbientNoise 1, Print (MsgCalibrating 1),
                      AdjustForAmbientNoise 1, Print (MsgCalibrating 2),
                      AdjustForAmbientNoise 1, Print (MsgCalibrating 3),
                      Print MsgCalibrationComplete, Print MsgListening] @ evs
               \<and> list_all (\<lambda>ev. \<not> is_adjust ev) evs"
    if mic: "microphone_res env = Returns ()" and cal: "\<forall>i<3. calibration_res env i = Returns ()"
  proof -
    note adj = ok [OF cal]
    then have "fst (adjust_for_ambient_noise (calibration_res env) s) = Returns ()" by simp
    from listen_and_translate_after_calibration [OF mic this, of md5]
    show ?thesis unfolding adj appends_def by (simp add: log_def)
  qed
  show ?thesis
    using ok [of passes] adjust_never_raises_Exception [of passes s] caught before by blast
qed

theorem calibration_three_passes_never_raises_witness:
  "calibration_res session_env0 0 = Returns () \<and> calibration_res session_env0 1 = Returns ()
   \<and> calibration_res session_env0 2 = Returns ()
   \<and> microphone_res session_env0 = Returns ()
   \<and> adjust_for_ambient_noise (calibration_res session_env0) session0
        = (Returns (),
           log [Print MsgAdjusting,
                AdjustForAmbientNoise 1, Print (MsgCalibrating 1),
                AdjustForAmbientNoise 1, Print (MsgCalibrating 2),
                AdjustForAmbientNoise 1, Print (MsgCalibrating 3),
                Print MsgCalibrationComplete] session0)
   \<and> (1::nat) < 3 \<and> passes_fail_second 0 = Returns ()
   \<and> passes_fail_second 1 = Raises OtherError \<and> is_Exception OtherError
   \<and> adjust_for_ambient_noise passes_fail_second session0
        = (Returns (),
           log [Print MsgAdjusting, AdjustForAmbientNoise 1, Print (MsgCalibrating 1),
                AdjustForAmbientNoise 1, Print MsgCalibrationWarning] session0)"
  using calibration_three_passes_never_raises
          [where passes = "calibration_res session_env0" and s = session0 and env = session_env0]
        calibration_three_passes_never_raises
          [where passes = passes_fail_second and s = session0 and i = 1 and e = OtherError]
  by (simp add: session_env0_def passes_fail_second_def is_Exception_def calibration_events_def)

section \<open>Properties of text_to_speech\<close>

lemma added_self [simp]: "added s s = []"
  by (simp add: added_def)

lemma added_append: "trace s' = trace s @ evs \<Longrightarrow> added s s' = evs"
  by (simp add: added_def)

lemma tts_try_trace:
  "\<exists>evs. trace (snd (tts_try md5 a t s)) = trace s @ Exists (get_audio_filename md5 s t) # evs
         \<and> list_all is_synth_or_play evs"
  by (auto simp: tts_try_def Let_def synthesize_def playsound_def get_audio_filename_def
           split: synth_outcome.splits option.splits prod.splits outcome.splits)

lemma tts_try_raises:
  "fst (tts_try md5 a t s) = Raises e \<Longrightarrow>
   (\<exists>left. synth_res a = SynthFailed e left) \<or> play_res a = Raises e"
  by (auto simp: tts_try_def Let_def synthesize_def playsound_def
           split: synth_outcome.splits option.splits prod.splits outcome.splits if_splits)

lemma tts_try_raises_Exception:
  "attempt_uninterrupted a \<Longrightarrow> fst (tts_try md5 a t s) = Raises e \<Longrightarrow> is_Exception e"
  by (auto dest!: tts_try_raises simp: attempt_uninterrupted_def)

lemma tts_attempts_returns:
  "\<forall>i\<in>set xs. attempt_uninterrupted (env i) \<Longrightarrow>
   fst (tts_attempts md5 n env t xs s) = Returns ()"
proof (induction xs arbitrary: s)
  case Nil
  then show ?case by simp
next
  case (Cons i xs)
  obtain r s1 where tr: "tts_try md5 (env i) t s = (r, s1)" by (cases "tts_try md5 (env i) t s")
  show ?case
  proof (cases r)
    case (Returns u)
    with tr show ?thesis by simp
  next
    case (Raises e)
    from Cons.prems have a: "attempt_uninterrupted (env i)" by simp
    with tr Raises tts_try_raises_Exception [of "env i" md5 t s e] have "is_Exception e" by simp
    moreover from a have "retry_sleep (env i) = Slept" by (simp add: attempt_uninterrupted_def)
    moreover from Cons.prems have "\<forall>i\<in>set xs. attempt_uninterrupted (env i)" by simp
    ultimately show ?thesis using tr Raises Cons.IH by simp
  qed
qed

lemma text_to_speech_returns:
  "\<forall>i<n. attempt_uninterrupted (env i) \<Longrightarrow> fst (text_to_speech md5 n env t s) = Returns ()"
  by (simp add: text_to_speech_def tts_attempts_returns)

lemma tts_attempts_raises_only_interrupt:
  "fst (tts_attempts md5 n env t xs s) = Raises e \<Longrightarrow> e = KeyboardInterrupt"
proof (induction xs arbitrary: s)
  case Nil
  then show ?case by simp
next
  case (Cons i xs)
  then show ?case
    by (auto simp: is_Exception_def split: prod.splits outcome.splits if_splits sleep_outcome.splits)
qed

lemma filter_synth_or_play:
  assumes "list_all is_synth_or_play evs"
  shows "filter is_exists evs = []" "filter is_sleep evs = []" "filter is_print evs = []"
proof -
  have "\<not> is_exists ev \<and> \<not> is_sleep ev \<and> \<not> is_print ev" if "is_synth_or_play ev" for ev
    using that by (cases ev) simp_all
  with assms show "filter is_exists evs = []" "filter is_sleep evs = []" "filter is_print evs = []"
    by (auto simp: list_all_iff filter_empty_conv)
qed

lemma tts_try_added:
  assumes "tts_try md5 a t s = (r, s1)"
  obtains evs where "trace s1 = trace s @ Exists (get_audio_filename md5 s t) # evs"
    and "filter is_exists evs = []" and "filter is_sleep evs = []" and "filter is_print evs = []"
  using tts_try_trace [of md5 a t s] assms filter_synth_or_play by fastforce

lemma text_to_speech_first_success:
  assumes "tts_try md5 (env 0) t s = (Returns (), s1)"
  shows "text_to_speech md5 3 env t s = (Returns (), s1)"
    and "length (filter is_exists (added s s1)) = 1"
    and "filter is_sleep (added s s1) = []"
    and "filter is_print (added s s1) = []"
proof -
  show "text_to_speech md5 3 env t s = (Returns (), s1)"
    using assms by (simp add: text_to_speech_def upt_3)
  from assms obtain evs where "trace s1 = trace s @ Exists (get_audio_filename md5 s t) # evs"
    and f: "filter is_exists evs = []" "filter is_sleep evs = []" "filter is_print evs = []"
    by (rule tts_try_added)
  then have "added s s1 = Exists (get_audio_filename md5 s t) # evs" by (simp add: added_append)
  with f show "length (filter is_exists (added s s1)) = 1" "filter is_sleep (added s s1) = []"
    "filter is_print (added s s1) = []"
    by simp_all
qed

lemma text_to_speech_two_failures:
  assumes 1: "tts_try md5 (env 0) t s = (Raises e0, s1)" "is_Exception e0" "retry_sleep (env 0) = Slept"
    and 2: "tts_try md5 (env 1) t (log [Print (MsgRetrying 2 3), Sleep 1] s1) = (Raises e1, s2)"
      "is_Exception e1" "retry_sleep (env 1) = Slept"
    and 3: "tts_try md5 (env 2) t (log [Print (MsgRetrying 3 3), Sleep 1] s2) = (r, s3)"
  shows "text_to_speech md5 3 env t s =
           (case r of Returns u \<Rightarrow> (Returns (), s3)
            | Raises e2 \<Rightarrow> if is_Exception e2 then (Returns (), log [Print (MsgTTSFailed 3)] s3)
                            else (Raises e2, s3))"
    and "length (filter is_exists (added s s3)) = 3"
    and "filter is_sleep (added s s3) = [Sleep 1, Sleep 1]"
    and "filter is_print (added s s3) = [Print (MsgRetrying 2 3), Print (MsgRetrying 3 3)]"
proof -
  have two: "Suc (Suc 0) = 2" "Suc 2 = 3" by simp_all
  show "text_to_speech md5 3 env t s =
           (case r of Returns u \<Rightarrow> (Returns (), s3)
            | Raises e2 \<Rightarrow> if is_Exception e2 then (Returns (), log [Print (MsgTTSFailed 3)] s3)
                            else (Raises e2, s3))"
    using 1 2 3 by (cases r) (simp_all add: text_to_speech_def upt_3 two)
  from 1(1) obtain evs1 where t1: "trace s1 = trace s @ Exists (get_audio_filename md5 s t) # evs1"
    and f1: "filter is_exists evs1 = []" "filter is_sleep evs1 = []" "filter is_print evs1 = []"
    by (rule tts_try_added)
  from 2(1) obtain evs2 p2 where t2: "trace s2 = trace s1 @ [Print (MsgRetrying 2 3), Sleep 1]
        @ Exists p2 # evs2"
    and f2: "filter is_exists evs2 = []" "filter is_sleep evs2 = []" "filter is_print evs2 = []"
    by (rule tts_try_added) simp
  from 3 obtain evs3 p3 where t3: "trace s3 = trace s2 @ [Print (MsgRetrying 3 3), Sleep 1]
        @ Exists p3 # evs3"
    and f3: "filter is_exists evs3 = []" "filter is_sleep evs3 = []" "filter is_print evs3 = []"
    by (rule tts_try_added) simp
  have "added s s3 = Exists (get_audio_filename md5 s t) # evs1
          @ [Print (MsgRetrying 2 3), Sleep 1] @ Exists p2 # evs2
          @ [Print (MsgRetrying 3 3), Sleep 1] @ Exists p3 # evs3"
    by (rule added_append) (simp add: t1 t2 t3)
  with f1 f2 f3 show "length (filter is_exists (added s s3)) = 3"
    "filter is_sleep (added s s3) = [Sleep 1, Sleep 1]"
    "filter is_print (added s s3) = [Print (MsgRetrying 2 3), Print (MsgRetrying 3 3)]"
    by simp_all
qed

lemma is_ok_play_Play [simp]: "is_ok_play (Play p r) = (r = Returns ())"
  by (cases r) simp_all

lemma tts_try_shape:
  assumes "tts_try md5 a t s = (r, s1)"
  shows "\<exists>evs. trace s1 = trace s @ Exists (get_audio_filename md5 s t) # evs
           \<and> list_all is_synth_or_play evs
           \<and> (r = Returns () \<longrightarrow> evs \<noteq> [] \<and> is_ok_play (last evs) \<and> length (filter is_ok_play evs) = 1)
           \<and> (r \<noteq> Returns () \<longrightarrow> filter is_ok_play evs = [])"
  using assms
  by (auto simp: tts_try_def Let_def synthesize_def playsound_def
           split: synth_outcome.splits option.splits prod.splits outcome.splits if_splits)

lemma filter_synth_or_play_failed:
  "list_all is_synth_or_play evs \<Longrightarrow> Print m \<notin> set evs"
  by (auto simp: list_all_iff)

lemma tts_attempts_counts:
  assumes "\<forall>i<n. attempt_uninterrupted (env i)"
  shows "\<exists>evs. trace (snd (tts_attempts md5 n env t [k ..< n] s)) = trace s @ evs
       \<and> length (filter is_exists evs) \<le> n - k
       \<and> (k < n \<longrightarrow> 1 \<le> length (filter is_exists evs))
       \<and> filter is_sleep evs = replicate (length (filter is_exists evs) - 1) (Sleep 1)
       \<and> (filter is_ok_play evs = [] \<longrightarrow>
            length (filter is_exists evs) = n - k \<and> (k < n \<longrightarrow> Print (MsgTTSFailed n) \<in> set evs))
       \<and> (filter is_ok_play evs \<noteq> [] \<longrightarrow>
            is_ok_play (last evs) \<and> length (filter is_ok_play evs) = 1
            \<and> Print (MsgTTSFailed n) \<notin> set evs)"
proof (induction "n - k" arbitrary: k s)
  case 0
  then have e: "[k ..< n] = []" and nk: "\<not> k < n" by simp_all
  show ?case unfolding e by (rule exI [of _ "[]"]) (use nk in simp)
next
  case (Suc d)
  then have kn: "k < n" and upt: "[k ..< n] = k # [Suc k ..< n]" and d: "d = n - Suc k"
    by (simp_all add: upt_conv_Cons)
  obtain r s1 where tr: "tts_try md5 (env k) t s = (r, s1)" by (cases "tts_try md5 (env k) t s")
  from tts_try_shape [OF tr] obtain evs1 where
    t1: "trace s1 = trace s @ Exists (get_audio_filename md5 s t) # evs1"
    and sp: "list_all is_synth_or_play evs1"
    and ok: "r = Returns () \<longrightarrow> evs1 \<noteq> [] \<and> is_ok_play (last evs1) \<and> length (filter is_ok_play evs1) = 1"
    and ko: "r \<noteq> Returns () \<longrightarrow> filter is_ok_play evs1 = []"
    by blast
  note f1 = filter_synth_or_play [OF sp] filter_synth_or_play_failed [OF sp]
  show ?case
  proof (cases r)
    case (Returns u)
    with tr upt have res: "snd (tts_attempts md5 n env t [k ..< n] s) = s1" by simp
    from Returns ok have ok': "evs1 \<noteq> []" "is_ok_play (last evs1)" "length (filter is_ok_play evs1) = 1"
      by simp_all
    show ?thesis
      unfolding res t1
      by (rule exI [of _ "Exists (get_audio_filename md5 s t) # evs1"])
         (use kn ok' f1 in auto)
  next
    case (Raises e)
    from assms kn have un: "attempt_uninterrupted (env k)" by simp
    with tr Raises tts_try_raises_Exception [of "env k" md5 t s e] have ex: "is_Exception e" by simp
    from un have sl: "retry_sleep (env k) = Slept" by (simp add: attempt_uninterrupted_def)
    from Raises ko have nok: "filter is_ok_play evs1 = []" by simp
    show ?thesis
    proof (cases "k = n - 1")
      case True
      then have "[Suc k ..< n] = []" by simp
      with tr Raises ex True upt
      have res: "snd (tts_attempts md5 n env t [k ..< n] s) = log [Print (MsgTTSFailed n)] s1"
        by simp
      show ?thesis
        unfolding res
        by (rule exI [of _ "Exists (get_audio_filename md5 s t) # evs1 @ [Print (MsgTTSFailed n)]"])
           (use kn True t1 nok f1 in auto)
    next
      case False
      with kn have kn': "Suc k < n" by simp
      let ?s1' = "log [Print (MsgRetrying (k + 2) n), Sleep 1] s1"
      from tr Raises ex False upt sl
      have res: "snd (tts_attempts md5 n env t [k ..< n] s)
                 = snd (tts_attempts md5 n env t [Suc k ..< n] ?s1')"
        by simp
      from Suc.hyps(1) [OF d, of ?s1'] obtain evs' where
        t': "trace (snd (tts_attempts md5 n env t [Suc k ..< n] ?s1')) = trace ?s1' @ evs'"
        and le: "length (filter is_exists evs') \<le> n - Suc k"
        and ge: "1 \<le> length (filter is_exists evs')"
        and sleeps: "filter is_sleep evs' = replicate (length (filter is_exists evs') - 1) (Sleep 1)"
        and none: "filter is_ok_play evs' = [] \<longrightarrow>
            length (filter is_exists evs') = n - Suc k \<and> Print (MsgTTSFailed n) \<in> set evs'"
        and some: "filter is_ok_play evs' \<noteq> [] \<longrightarrow>
            is_ok_play (last evs') \<and> length (filter is_ok_play evs') = 1
            \<and> Print (MsgTTSFailed n) \<notin> set evs'"
        using kn' by blast
      from ge have ne: "evs' \<noteq> []" by auto
      let ?evs = "Exists (get_audio_filename md5 s t) # evs1
                    @ [Print (MsgRetrying (k + 2) n), Sleep 1] @ evs'"
      have tr_eq: "trace (snd (tts_attempts md5 n env t [k ..< n] s)) = trace s @ ?evs"
        unfolding res t' by (simp add: t1)
      have ex_eq: "length (filter is_exists ?evs) = Suc (length (filter is_exists evs'))"
        using f1 by simp
      have sl_eq: "filter is_sleep ?evs = Sleep 1 # filter is_sleep evs'"
        using f1 by simp
      have ok_eq: "filter is_ok_play ?evs = filter is_ok_play evs'"
        using nok by simp
      have last_eq: "last ?evs = last evs'"
        using ne by simp
      have failed_eq: "Print (MsgTTSFailed n) \<in> set ?evs \<longleftrightarrow> Print (MsgTTSFailed n) \<in> set evs'"
        using f1 by auto
      have repl: "Sleep 1 # replicate (length (filter is_exists evs') - 1) (Sleep 1)
                  = replicate (Suc (length (filter is_exists evs')) - 1) (Sleep 1)"
        using ge by (cases "length (filter is_exists evs')") simp_all
      show ?thesis
        apply (rule exI [of _ ?evs])
        unfolding ex_eq sl_eq ok_eq last_eq failed_eq
        using tr_eq le ge sleeps none some kn' repl by auto
    qed
  qed
qed

lemma text_to_speech_counts:
  assumes "\<forall>i<n. attempt_uninterrupted (env i)"
  shows "fst (text_to_speech md5 n env t s) = Returns ()"
    and "attempts_made s (snd (text_to_speech md5 n env t s)) \<le> n"
    and "0 < n \<Longrightarrow> 1 \<le> attempts_made s (snd (text_to_speech md5 n env t s))"
    and "sleeps_made s (snd (text_to_speech md5 n env t s))
         = replicate (attempts_made s (snd (text_to_speech md5 n env t s)) - 1) (Sleep 1)"
    and "filter is_ok_play (added s (snd (text_to_speech md5 n env t s))) = [] \<Longrightarrow>
         attempts_made s (snd (text_to_speech md5 n env t s)) = n
         \<and> (0 < n \<longrightarrow> Print (MsgTTSFailed n) \<in> set (added s (snd (text_to_speech md5 n env t s))))"
    and "filter is_ok_play (added s (snd (text_to_speech md5 n env t s))) \<noteq> [] \<Longrightarrow>
         is_ok_play (last (added s (snd (text_to_speech md5 n env t s))))
         \<and> Print (MsgTTSFailed n) \<notin> set (added s (snd (text_to_speech md5 n env t s)))"
proof -
  let ?s' = "snd (text_to_speech md5 n env t s)"
  from tts_attempts_counts [OF assms, of md5 t 0 s] obtain evs where
    tr: "trace ?s' = trace s @ evs"
    and c: "length (filter is_exists evs) \<le> n"
      "0 < n \<longrightarrow> 1 \<le> length (filter is_exists evs)"
      "filter is_sleep evs = replicate (length (filter is_exists evs) - 1) (Sleep 1)"
      "filter is_ok_play evs = [] \<longrightarrow>
         length (filter is_exists evs) = n \<and> (0 < n \<longrightarrow> Print (MsgTTSFailed n) \<in> set evs)"
      "filter is_ok_play evs \<noteq> [] \<longrightarrow>
         is_ok_play (last evs) \<and> length (filter is_ok_play evs) = 1
         \<and> Print (MsgTTSFailed n) \<notin> set evs"
    unfolding text_to_speech_def by auto
  from tr have a: "added s ?s' = evs" by (rule added_append)
  show "fst (text_to_speech md5 n env t s) = Returns ()"
    by (rule text_to_speech_returns [OF assms])
  show "attempts_made s ?s' \<le> n" using c(1) by (simp add: attempts_made_def a)
  show "1 \<le> attempts_made s ?s'" if "0 < n" using c(2) that by (simp add: attempts_made_def a)
  show "sleeps_made s ?s' = replicate (attempts_made s ?s' - 1) (Sleep 1)"
    using c(3) by (simp add: attempts_made_def sleeps_made_def a)
  show "attempts_made s ?s' = n \<and> (0 < n \<longrightarrow> Print (MsgTTSFailed n) \<in> set (added s ?s'))"
    if "filter is_ok_play (added s ?s') = []"
    using c(4) that by (simp add: attempts_made_def a)
  show "is_ok_play (last (added s ?s')) \<and> Print (MsgTTSFailed n) \<notin> set (added s ?s')"
    if "filter is_ok_play (added s ?s') \<noteq> []"
    using c(5) that by (simp add: a)
qed

text \<open>
  Claim C5. \<open>text_to_speech\<close> makes at most \<open>max_retries\<close> attempts (3 at its only call)
  and pauses for exactly one second after each attempt but the last one made, so the
  pauses are one fewer than the attempts. It returns right after the first attempt
  that succeeds: the successful playback is the last event. When two attempts fail and
  the third succeeds there are exactly 3 attempts and 2 pauses of one second. When every
  attempt fails there are exactly \<open>max_retries\<close> attempts, the failure is reported, and
  the function still returns normally: no \<open>Exception\<close> of the engine or the player
  reaches the caller.
\<close>

theorem text_to_speech_retries:
  "((\<forall>i<n. attempt_uninterrupted (env i)) \<longrightarrow>
      fst (text_to_speech md5 n env t s) = Returns ()
      \<and> attempts_made s (snd (text_to_speech md5 n env t s)) \<le> n
      \<and> sleeps_made s (snd (text_to_speech md5 n env t s))
          = replicate (attempts_made s (snd (text_to_speech md5 n env t s)) - 1) (Sleep 1)
      \<and> (filter is_ok_play (added s (snd (text_to_speech md5 n env t s))) \<noteq> [] \<longrightarrow>
            is_ok_play (last (added s (snd (text_to_speech md5 n env t s))))
            \<and> Print (MsgTTSFailed n) \<notin> set (added s (snd (text_to_speech md5 n env t s))))
      \<and> (filter is_ok_play (added s (snd (text_to_speech md5 n env t s))) = [] \<and> 0 < n \<longrightarrow>
            attempts_made s (snd (text_to_speech md5 n env t s)) = n
            \<and> Print (MsgTTSFailed n) \<in> set (added s (snd (text_to_speech md5 n env t s)))))
   \<and> (tts_try md5 (env 0) t s = (Returns (), s') \<longrightarrow>
        text_to_speech md5 3 env t s = (Returns (), s')
        \<and> attempts_made s s' = 1 \<and> sleeps_made s s' = [])
   \<and> (tts_try md5 (env 0) t s = (Raises e0, s1) \<and> is_Exception e0 \<and> retry_sleep (env 0) = Slept
        \<and> tts_try md5 (env 1) t (log [Print (MsgRetrying 2 3), Sleep 1] s1) = (Raises e1, s2)
        \<and> is_Exception e1 \<and> retry_sleep (env 1) = Slept
        \<and> tts_try md5 (env 2) t (log [Print (MsgRetrying 3 3), Sleep 1] s2) = (Returns (), s3)
      \<longrightarrow> text_to_speech md5 3 env t s = (Returns (), s3)
          \<and> attempts_made s s3 = 3 \<and> sleeps_made s s3 = [Sleep 1, Sleep 1])
   \<and> (tts_try md5 (env 0) t s = (Raises e0, s1) \<and> is_Exception e0 \<and> retry_sleep (env 0) = Slept
        \<and> tts_try md5 (env 1) t (log [Print (MsgRetrying 2 3), Sleep 1] s1) = (Raises e1, s2)
        \<and> is_Exception e1 \<and> retry_sleep (env 1) = Slept
        \<and> tts_try md5 (env 2) t (log [Print (MsgRetrying 3 3), Sleep 1] s2) = (Raises e2, s3)
        \<and> is_Exception e2
      \<longrightarrow> text_to_speech md5 3 env t s = (Returns (), log [Print (MsgTTSFailed 3)] s3)
          \<and> attempts_made s s3 = 3 \<and> sleeps_made s s3 = [Sleep 1, Sleep 1])"
proof -
  have general: "fst (text_to_speech md5 n env t s) = Returns ()
      \<and> attempts_made s (snd (text_to_speech md5 n env t s)) \<le> n
      \<and> sleeps_made s (snd (text_to_speech md5 n env t s))
          = replicate (attempts_made s (snd (text_to_speech md5 n env t s)) - 1) (Sleep 1)
      \<and> (filter is_ok_play (added s (snd (text_to_speech md5 n env t s))) \<noteq> [] \<longrightarrow>
            is_ok_play (last (added s (snd (text_to_speech md5 n env t s))))
            \<and> Print (MsgTTSFailed n) \<notin> set (added s (snd (text_to_speech md5 n env t s))))
      \<and> (filter is_ok_play (added s (snd (text_to_speech md5 n env t s))) = [] \<and> 0 < n \<longrightarrow>
            attempts_made s (snd (text_to_speech md5 n env t s)) = n
            \<and> Print (MsgTTSFailed n) \<in> set (added s (snd (text_to_speech md5 n env t s))))"
    if "\<forall>i<n. attempt_uninterrupted (env i)"
    using text_to_speech_counts [OF that, where ?md5.0 = md5 and t = t and s = s] by blast
  have first: "text_to_speech md5 3 env t s = (Returns (), s')
        \<and> attempts_made s s' = 1 \<and> sleeps_made s s' = []"
    if "tts_try md5 (env 0) t s = (Returns (), s')"
    using text_to_speech_first_success [where env = env, OF that] by (simp add: attempts_made_def sleeps_made_def)
  have third: "text_to_speech md5 3 env t s = (Returns (), s3)
          \<and> attempts_made s s3 = 3 \<and> sleeps_made s s3 = [Sleep 1, Sleep 1]"
    if "tts_try md5 (env 0) t s = (Raises e0, s1)" "is_Exception e0" "retry_sleep (env 0) = Slept"
      "tts_try md5 (env 1) t (log [Print (MsgRetrying 2 3), Sleep 1] s1) = (Raises e1, s2)"
      "is_Exception e1" "retry_sleep (env 1) = Slept"
      "tts_try md5 (env 2) t (log [Print (MsgRetrying 3 3), Sleep 1] s2) = (Returns (), s3)"
    using text_to_speech_two_failures [where env = env, OF that] by (simp add: attempts_made_def sleeps_made_def)
  have never: "text_to_speech md5 3 env t s = (Returns (), log [Print (MsgTTSFailed 3)] s3)
          \<and> attempts_made s s3 = 3 \<and> sleeps_made s s3 = [Sleep 1, Sleep 1]"
    if "tts_try md5 (env 0) t s = (Raises e0, s1)" "is_Exception e0" "retry_sleep (env 0) = Slept"
      "tts_try md5 (env 1) t (log [Print (MsgRetrying 2 3), Sleep 1] s1) = (Raises e1, s2)"
      "is_Exception e1" "retry_sleep (env 1) = Slept"
      "tts_try md5 (env 2) t (log [Print (MsgRetrying 3 3), Sleep 1] s2) = (Raises e2, s3)"
      "is_Exception e2"
    using text_to_speech_two_failures [where env = env, OF that(1-7)] that(8)
    by (simp add: attempts_made_def sleeps_made_def)
  show ?thesis
    using general first third never by blast
qed

theorem text_to_speech_retries_witness:
  "attempt_uninterrupted (fails_twice 0) \<and> attempt_uninterrupted (fails_twice 1)
   \<and> attempt_uninterrupted (fails_twice 2)
   \<and> fst (text_to_speech (\<lambda>t. t) 3 fails_twice ''bonjour'' session0) = Returns ()
   \<and> trace (snd (text_to_speech (\<lambda>t. t) 3 fails_twice ''bonjour'' session0))
       = [Exists bonjour_mp3, Synthesize ''bonjour'' ''fr'' bonjour_mp3 (Synthesized 100),
          Play bonjour_mp3 (Raises OtherError), Print (MsgRetrying 2 3), Sleep 1,
          Exists bonjour_mp3, Play bonjour_mp3 (Raises OtherError),
          Print (MsgRetrying 3 3), Sleep 1,
          Exists bonjour_mp3, Play bonjour_mp3 (Returns ())]
   \<and> attempts_made session0 (snd (text_to_speech (\<lambda>t. t) 3 fails_twice ''bonjour'' session0)) = 3
   \<and> sleeps_made session0 (snd (text_to_speech (\<lambda>t. t) 3 fails_twice ''bonjour'' session0))
       = [Sleep 1, Sleep 1]"
proof -
  note defs = tts_try_def Let_def synthesize_def playsound_def get_audio_filename_def
    file_exists_def log_def session0_def fails_twice_def attempt_play_fails_def attempt_fine_def
    bonjour_mp3_def
  let ?s1 = "snd (tts_try (\<lambda>t. t) (fails_twice 0) ''bonjour'' session0)"
  let ?s2 = "snd (tts_try (\<lambda>t. t) (fails_twice 1) ''bonjour''
                    (log [Print (MsgRetrying 2 3), Sleep 1] ?s1))"
  let ?s3 = "snd (tts_try (\<lambda>t. t) (fails_twice 2) ''bonjour''
                    (log [Print (MsgRetrying 3 3), Sleep 1] ?s2))"
  have u: "\<forall>i<3. attempt_uninterrupted (fails_twice i)"
    by (simp add: fails_twice_def attempt_play_fails_def attempt_fine_def
          attempt_uninterrupted_def is_Exception_def)
  have h1: "tts_try (\<lambda>t. t) (fails_twice 0) ''bonjour'' session0 = (Raises OtherError, ?s1)"
    by (simp add: defs)
  have h2: "tts_try (\<lambda>t. t) (fails_twice 1) ''bonjour'' (log [Print (MsgRetrying 2 3), Sleep 1] ?s1)
            = (Raises OtherError, ?s2)"
    by (simp add: defs)
  have h3: "tts_try (\<lambda>t. t) (fails_twice 2) ''bonjour'' (log [Print (MsgRetrying 3 3), Sleep 1] ?s2)
            = (Returns (), ?s3)"
    by (simp add: defs)
  have e: "is_Exception OtherError" and sl: "retry_sleep (fails_twice 0) = Slept"
    "retry_sleep (fails_twice 1) = Slept"
    by (simp_all add: is_Exception_def fails_twice_def attempt_play_fails_def)
  have s3: "trace ?s3
       = [Exists bonjour_mp3, Synthesize ''bonjour'' ''fr'' bonjour_mp3 (Synthesized 100),
          Play bonjour_mp3 (Raises OtherError), Print (MsgRetrying 2 3), Sleep 1,
          Exists bonjour_mp3, Play bonjour_mp3 (Raises OtherError),
          Print (MsgRetrying 3 3), Sleep 1,
          Exists bonjour_mp3, Play bonjour_mp3 (Returns ())]"
    by (simp add: defs)
  note T = text_to_speech_retries
    [where ?md5.0 = "\<lambda>t. t" and n = 3 and env = fails_twice and t = "''bonjour''" and s = session0
       and ?s1.0 = ?s1 and ?s2.0 = ?s2 and ?s3.0 = ?s3 and ?e0.0 = OtherError and ?e1.0 = OtherError]
  from T have "text_to_speech (\<lambda>t. t) 3 fails_twice ''bonjour'' session0 = (Returns (), ?s3)
      \<and> attempts_made session0 ?s3 = 3 \<and> sleeps_made session0 ?s3 = [Sleep 1, Sleep 1]"
    using h1 h2 h3 e sl by blast
  with u s3 show ?thesis by simp
qed

section \<open>Errors inside the loop\<close>

lemma translate_cached_raises:
  "fst (translate_cached env t s) = Raises e \<Longrightarrow> translate_res env = Raises e"
  by (auto simp: translate_cached_def split: option.splits outcome.splits)

lemma try_body_raises_Exception:
  assumes "round_uninterrupted env" and "fst (try_body md5 env s) = Raises e"
  shows "is_Exception e"
proof (rule ccontr)
  assume "\<not> is_Exception e"
  then have e: "e = KeyboardInterrupt" by (simp add: is_Exception_def)
  from assms(1) have u: "listen_res env \<noteq> Raises KeyboardInterrupt"
    "recognize_res env \<noteq> Raises KeyboardInterrupt" "throttle_sleep env = Slept"
    "translate_res env \<noteq> Raises KeyboardInterrupt"
    "\<forall>i<3. attempt_uninterrupted (tts_env env i)"
    by (simp_all add: round_uninterrupted_def list_all_iff)
  have tts: "fst (text_to_speech md5 3 (tts_env env) tr s') \<noteq> Raises KeyboardInterrupt" for tr s'
    using text_to_speech_returns [OF u(5), of md5 tr s'] by simp
  have tc: "translate_cached env t s' \<noteq> (Raises KeyboardInterrupt, x)" for t s' x
    using translate_cached_raises [of env t s' KeyboardInterrupt] u(4) by auto
  from assms(2) e u(1-3) tts tc show False
    by (auto simp: try_body_def Let_def split: outcome.splits sleep_outcome.splits prod.splits)
qed


lemma iteration_returns:
  assumes "round_uninterrupted env"
  shows "fst (iteration md5 env s) = Returns ()"
proof -
  obtain r s1 where tb: "try_body md5 env s = (r, s1)" by (cases "try_body md5 env s")
  from assms have cd: "cooldown_sleep env = Slept" by (simp add: round_uninterrupted_def)
  show ?thesis
  proof (cases r)
    case (Returns u)
    with tb show ?thesis by (simp add: iteration_def)
  next
    case (Raises e)
    with tb try_body_raises_Exception [OF assms, of md5 s e] have "is_Exception e" by simp
    with tb Raises cd show ?thesis by (simp add: iteration_def)
  qed
qed


lemma session_loop_keeps_running:
  "list_all round_uninterrupted envs \<Longrightarrow> fst (session_loop md5 envs s) = None"
proof (induction envs arbitrary: s)
  case Nil
  then show ?case by simp
next
  case (Cons env envs)
  obtain r s1 where it: "iteration md5 env s = (r, s1)" by (cases "iteration md5 env s")
  with iteration_returns [of env md5 s] Cons.prems have "r = Returns ()" by simp
  with it Cons show ?case by simp
qed




























section \<open>What the loop leaves unchanged\<close>

lemma same_session_refl: "same_session s s"
  by (simp add: same_session_def)

lemma same_session_trans: "same_session s s1 \<Longrightarrow> same_session s1 s2 \<Longrightarrow> same_session s s2"
  by (simp add: same_session_def)

lemma same_session_log [simp]: "same_session s (log evs s') = same_session s s'"
  by (simp add: same_session_def)

lemma tts_try_frame:
  "translation_cache (snd (tts_try md5 a t s)) = translation_cache s"
  "same_session s (snd (tts_try md5 a t s))"
  by (auto simp: tts_try_def Let_def synthesize_def playsound_def same_session_def log_def
           split: synth_outcome.splits option.splits prod.splits outcome.splits)

lemma tts_attempts_frame:
  "translation_cache (snd (tts_attempts md5 n env t xs s)) = translation_cache s
   \<and> same_session s (snd (tts_attempts md5 n env t xs s))"
proof (induction xs arbitrary: s)
  case Nil
  then show ?case by (simp add: same_session_refl)
next
  case (Cons i xs)
  obtain r s1 where tr: "tts_try md5 (env i) t s = (r, s1)" by (cases "tts_try md5 (env i) t s")
  with tts_try_frame [where ?md5.0 = md5 and a = "env i" and t = t and s = s]
  have 1: "translation_cache s1 = translation_cache s" "same_session s s1" by simp_all
  have 2: "translation_cache (snd (tts_attempts md5 n env t xs (log evs s1))) = translation_cache s
      \<and> same_session s (snd (tts_attempts md5 n env t xs (log evs s1)))" for evs
    using Cons.IH [of "log evs s1"] 1 by (auto simp: same_session_def)
  from tr 1 2 show ?case
    by (cases r) (simp_all split: sleep_outcome.splits)
qed

lemma text_to_speech_frame:
  "translation_cache (snd (text_to_speech md5 n env t s)) = translation_cache s"
  "same_session s (snd (text_to_speech md5 n env t s))"
  by (simp_all add: text_to_speech_def tts_attempts_frame)

lemma translate_cached_cache:
  "translation_cache (snd (translate_cached env t s)) =
     (case map_of (translation_cache s) t of
        Some tr \<Rightarrow> translation_cache s
      | None \<Rightarrow> (case translate_res env of
                   Returns tr \<Rightarrow> translation_cache s @ [(t, tr)]
                 | Raises e \<Rightarrow> translation_cache s))"
proof (cases "map_of (translation_cache s) t")
  case None
  then have "t \<notin> set (map fst (translation_cache s))" by (simp add: map_of_eq_None_iff)
  from dict_set_fresh [OF this] None show ?thesis
    by (simp add: translate_cached_def split: outcome.splits)
next
  case (Some tr)
  then show ?thesis by (simp add: translate_cached_def)
qed

lemma translate_cached_same_session: "same_session s (snd (translate_cached env t s))"
  by (auto simp: translate_cached_def same_session_def split: option.splits outcome.splits)

lemma try_body_cache:
  "translation_cache (snd (try_body md5 env s)) = cache_after_round env (translation_cache s)"
proof -
  have tc: "translation_cache (snd (translate_cached env t s')) =
     (case map_of (translation_cache s) t of
        Some tr \<Rightarrow> translation_cache s
      | None \<Rightarrow> (case translate_res env of
                   Returns tr \<Rightarrow> translation_cache s @ [(t, tr)]
                 | Raises e \<Rightarrow> translation_cache s))"
    if h: "translation_cache s' = translation_cache s" for t s'
    using translate_cached_cache [of env t s'] unfolding h .
  show ?thesis
  proof (cases "listen_res env")
    case (Raises e)
    then show ?thesis by (simp add: try_body_def cache_after_round_def Let_def)
  next
    case L: (Returns au)
    show ?thesis
    proof (cases "recognize_res env")
      case (Raises e)
      with L show ?thesis by (simp add: try_body_def cache_after_round_def Let_def)
    next
      case R: (Returns t)
      show ?thesis
      proof (cases "throttle_sleep env")
        case Interrupted
        with L R show ?thesis by (simp add: try_body_def cache_after_round_def Let_def)
      next
        case Slept
        let ?s3 = "log [Sleep (1 / 2)] (log [Recognize au (source_lang (log [Listen 5 10] s))]
                     (log [Listen 5 10] s))"
        obtain r s4 where eq: "translate_cached env t ?s3 = (r, s4)"
          by (cases "translate_cached env t ?s3")
        from tc [of ?s3 t] eq have c4: "translation_cache s4 =
           (case map_of (translation_cache s) t of
              Some tr \<Rightarrow> translation_cache s
            | None \<Rightarrow> (case translate_res env of
                   Returns tr \<Rightarrow> translation_cache s @ [(t, tr)]
                 | Raises e \<Rightarrow> translation_cache s))"
          by simp
        have "translation_cache (snd (try_body md5 env s)) = translation_cache s4"
          using L R Slept eq
          by (cases r) (simp_all add: try_body_def Let_def text_to_speech_frame)
        with c4 L R Slept show ?thesis by (simp add: cache_after_round_def)
      qed
    qed
  qed
qed

lemma iteration_cache:
  "translation_cache (snd (iteration md5 env s)) = cache_after_round env (translation_cache s)"
proof -
  obtain r s1 where tb: "try_body md5 env s = (r, s1)" by (cases "try_body md5 env s")
  with try_body_cache [of md5 env s]
  have "translation_cache s1 = cache_after_round env (translation_cache s)" by simp
  with tb show ?thesis
    by (cases r) (simp_all add: iteration_def split: sleep_outcome.splits)
qed

lemma cache_after_round_extends: "\<exists>new. cache_after_round env c = c @ new"
  by (simp add: cache_after_round_def split: outcome.splits sleep_outcome.splits option.splits)

lemma session_loop_cache_extends:
  "\<exists>new. translation_cache (snd (session_loop md5 envs s)) = translation_cache s @ new"
proof (induction envs arbitrary: s)
  case Nil
  then show ?case by simp
next
  case (Cons env envs)
  obtain r s1 where it: "iteration md5 env s = (r, s1)" by (cases "iteration md5 env s")
  with iteration_cache [of md5 env s] cache_after_round_extends [of env "translation_cache s"]
  obtain new1 where 1: "translation_cache s1 = translation_cache s @ new1" by auto
  from Cons.IH [of s1] obtain new2 where
    "translation_cache (snd (session_loop md5 envs s1)) = translation_cache s1 @ new2" by blast
  with 1 it show ?case by (cases r) simp_all
qed

lemma session_loop_append:
  "session_loop md5 (xs @ ys) s =
     (case session_loop md5 xs s of
        (None, s1) \<Rightarrow> session_loop md5 ys s1
      | (Some e, s1) \<Rightarrow> (Some e, s1))"
  by (induction xs arbitrary: s) (auto split: prod.splits outcome.splits option.splits)

lemma session_loop_cache:
  "list_all round_uninterrupted envs \<Longrightarrow>
   translation_cache (snd (session_loop md5 envs s)) = fold cache_after_round envs (translation_cache s)"
proof (induction envs arbitrary: s)
  case Nil
  then show ?case by simp
next
  case (Cons env envs)
  obtain r s1 where it: "iteration md5 env s = (r, s1)" by (cases "iteration md5 env s")
  with iteration_returns [of env md5 s] Cons.prems have r: "r = Returns ()" by simp
  from it iteration_cache [of md5 env s]
  have "translation_cache s1 = cache_after_round env (translation_cache s)" by simp
  with Cons it r show ?case by simp
qed

section \<open>The translation cache during a session\<close>

lemma calibration_passes_cache:
  "translation_cache (snd (calibration_passes passes xs s)) = translation_cache s"
  by (induction xs arbitrary: s) (auto split: outcome.splits)

lemma adjust_cache:
  "translation_cache (snd (adjust_for_ambient_noise passes s)) = translation_cache s"
  using calibration_passes_cache [of passes "[0 ..< 3]" "log [Print MsgAdjusting] s"]
  by (auto simp: adjust_for_ambient_noise_def split: prod.splits outcome.splits)

lemma phrase_inj: "phrase i = phrase j \<Longrightarrow> i = j"
proof -
  assume "phrase i = phrase j"
  then have "length (phrase i) = length (phrase j)" by simp
  then show "i = j" by (simp add: phrase_def)
qed

lemma round_saying_uninterrupted: "round_uninterrupted (round_saying t)"
  by (simp add: round_uninterrupted_def round_saying_def round_hello_def upt_3
        attempt_uninterrupted_def attempt_fine_def)

lemma cache_after_round_saying:
  "map_of c t = None \<Longrightarrow> cache_after_round (round_saying t) c = c @ [(t, ''bonjour'')]"
  by (simp add: cache_after_round_def round_saying_def round_hello_def)

lemma fold_new_phrases:
  "fold cache_after_round (new_phrases n) [] = map (\<lambda>i. (phrase i, ''bonjour'')) [0 ..< n]"
proof (induction n)
  case 0
  then show ?case by (simp add: new_phrases_def)
next
  case (Suc n)
  let ?c = "map (\<lambda>i. (phrase i, ''bonjour'')) [0 ..< n]"
  have "phrase n \<notin> fst ` set ?c" using phrase_inj by force
  then have "map_of ?c (phrase n) = None" by (simp add: map_of_eq_None_iff)
  from cache_after_round_saying [OF this] Suc show ?case
    by (simp add: new_phrases_def)
qed

lemma new_phrases_uninterrupted: "list_all round_uninterrupted (new_phrases n)"
  by (simp add: new_phrases_def list_all_iff round_saying_uninterrupted)

lemma session_loop_new_phrases:
  assumes "translation_cache s = []"
  obtains s2 where "session_loop md5 (new_phrases n) s = (None, s2)"
    and "translation_cache s2 = map (\<lambda>i. (phrase i, ''bonjour'')) [0 ..< n]"
proof -
  obtain x s2 where eq: "session_loop md5 (new_phrases n) s = (x, s2)"
    by (cases "session_loop md5 (new_phrases n) s")
  with session_loop_keeps_running [OF new_phrases_uninterrupted, of md5 n s]
  have "x = None" by simp
  moreover from session_loop_cache [OF new_phrases_uninterrupted, of md5 n s] assms eq
  have "translation_cache s2 = map (\<lambda>i. (phrase i, ''bonjour'')) [0 ..< n]"
    by (simp add: fold_new_phrases)
  ultimately show ?thesis using eq that by simp
qed

lemma listen_and_translate_new_phrases:
  "\<exists>s'. listen_and_translate md5 (session_env0\<lparr>rounds := new_phrases n\<rparr>) session0 = Running s'
        \<and> translation_cache s' = map (\<lambda>i. (phrase i, ''bonjour'')) [0 ..< n]"
proof -
  let ?env = "session_env0\<lparr>rounds := new_phrases n\<rparr>"
  obtain r s1 where adj: "adjust_for_ambient_noise (calibration_res ?env) session0 = (r, s1)"
    by (cases "adjust_for_ambient_noise (calibration_res ?env) session0")
  have "\<forall>i<3. \<forall>e. calibration_res ?env i = Raises e \<longrightarrow> is_Exception e"
    by (simp add: session_env0_def)
  from adjust_never_raises_Exception [OF this, of session0] adj have r: "r = Returns ()" by simp
  from adjust_cache [of "calibration_res ?env" session0] adj
  have "translation_cache (log [Print MsgListening] s1) = []" by (simp add: session0_def)
  then obtain s2 where lp: "session_loop md5 (new_phrases n) (log [Print MsgListening] s1) = (None, s2)"
    and c2: "translation_cache s2 = map (\<lambda>i. (phrase i, ''bonjour'')) [0 ..< n]"
    by (rule session_loop_new_phrases)
  have mic: "microphone_res ?env = Returns ()" by (simp add: session_env0_def)
  have "listen_and_translate md5 ?env session0 = Running s2"
    unfolding listen_and_translate_def mic using adj r lp by simp
  with c2 show ?thesis by simp
qed

text \<open>
  Claim C4. The claim expects the loop to call \<open>manage_cache\<close> from time to time, so
  that the translation cache does not grow without bound. No function of the loop calls
  it: whatever the rounds, the cache after them is the cache before them with entries
  added at the end, and nothing is ever removed. A session of \<open>n\<close> rounds that each
  hear a new phrase ends with \<open>n\<close> entries, so 1001 such rounds leave 1001 entries,
  more than the default threshold of 1000.
\<close>

theorem session_never_evicts:
  "(\<exists>new. translation_cache (snd (session_loop md5 envs s)) = translation_cache s @ new)
   \<and> (\<exists>s'. listen_and_translate md5 (session_env0\<lparr>rounds := new_phrases n\<rparr>) session0 = Running s'
          \<and> translation_cache s' = map (\<lambda>i. (phrase i, ''bonjour'')) [0 ..< n]
          \<and> length (translation_cache s') = n)
   \<and> (\<exists>s'. listen_and_translate md5 (session_env0\<lparr>rounds := new_phrases 1001\<rparr>) session0 = Running s'
          \<and> 1000 < int (length (translation_cache s')))"
proof -
  have grow: "\<exists>s'. listen_and_translate md5 (session_env0\<lparr>rounds := new_phrases k\<rparr>) session0 = Running s'
          \<and> translation_cache s' = map (\<lambda>i. (phrase i, ''bonjour'')) [0 ..< k]
          \<and> length (translation_cache s') = k" for k
    using listen_and_translate_new_phrases [of md5 k] by auto
  from grow [of 1001]
  have "\<exists>s'. listen_and_translate md5 (session_env0\<lparr>rounds := new_phrases 1001\<rparr>) session0 = Running s'
          \<and> 1000 < int (length (translation_cache s'))"
    by auto
  with session_loop_cache_extends [of md5 envs s] grow [of n] show ?thesis by blast
qed

section \<open>Properties of the constructor\<close>

lemma init_returns_iff:
  "(\<exists>s. init env src tgt = Returns s)
   \<longleftrightarrow> (translator_res env = Returns () \<and> (\<exists>p. probe_res env = Returns p)
        \<and> mkdir_res env = Returns ())"
  by (auto simp: init_def split: outcome.splits)

lemma init_probe_fails:
  assumes "translator_res env = Raises e \<or> (translator_res env = Returns () \<and> probe_res env = Raises e)"
    and "is_Exception e"
  shows "init env src tgt = Raises ValueError"
  using assms by (auto simp: init_def)

lemma main_not_started:
  "init ienv src tgt = Raises e \<Longrightarrow> main md5 ienv senv src tgt = NotStarted e"
  by (simp add: main_def)

lemma main_started:
  "init ienv src tgt = Returns s \<Longrightarrow> \<exists>r. main md5 ienv senv src tgt = Session r"
  by (auto simp: main_def split: run.splits)

text \<open>
  Claim C8, as it holds. The constructor translates the fixed string \<open>test\<close>. It returns
  if and only if building the translation engine, translating the probe and creating
  the cache directory all succeed. When building the engine or the probe raises an
  \<open>Exception\<close>, the constructor raises \<open>ValueError\<close>. Whenever the constructor raises,
  \<open>main\<close> does not call \<open>listen_and_translate\<close>, and when it returns, the session
  starts with an empty translation cache.
\<close>

theorem init_validates_translator:
  "((\<exists>s. init env src tgt = Returns s)
      \<longleftrightarrow> (translator_res env = Returns () \<and> (\<exists>p. probe_res env = Returns p)
           \<and> mkdir_res env = Returns ()))
   \<and> ((translator_res env = Raises e
         \<or> (translator_res env = Returns () \<and> probe_res env = Raises e)) \<and> is_Exception e
        \<longrightarrow> init env src tgt = Raises ValueError)
   \<and> (init env src tgt = Raises e \<longrightarrow> main md5 env senv src tgt = NotStarted e)
   \<and> (init env src tgt = Returns s \<longrightarrow>
        translation_cache s = [] \<and> source_lang s = src \<and> target_lang s = tgt
        \<and> (\<exists>r. main md5 env senv src tgt = Session r))"
proof -
  have fresh: "translation_cache s = [] \<and> source_lang s = src \<and> target_lang s = tgt"
    if "init env src tgt = Returns s"
    using that by (auto simp: init_def split: outcome.splits if_splits)
  show ?thesis
    using init_returns_iff [of env src tgt] init_probe_fails [of env e src tgt]
      main_not_started [of env src tgt e md5 senv] main_started [of env src tgt s md5 senv] fresh
    by blast
qed

theorem init_validates_translator_witness:
  "init init_env0 ''en'' ''fr'' = Returns session0
   \<and> translation_cache session0 = []
   \<and> init probe_fails ''en'' ''xx'' = Raises ValueError
   \<and> main (\<lambda>t. t) probe_fails session_env0 ''en'' ''xx'' = NotStarted ValueError
   \<and> init mkdir_fails ''en'' ''fr'' = Raises OtherError
   \<and> main (\<lambda>t. t) mkdir_fails session_env0 ''en'' ''fr'' = NotStarted OtherError"
proof -
  have i0: "init init_env0 ''en'' ''fr'' = Returns session0"
    by (simp add: init_def init_env0_def session0_def)
  have p: "translator_res probe_fails = Returns () \<and> probe_res probe_fails = Raises RequestError"
    "is_Exception RequestError"
    by (simp_all add: probe_fails_def init_env0_def is_Exception_def)
  have m: "init mkdir_fails ''en'' ''fr'' = Raises OtherError"
    by (simp add: init_def mkdir_fails_def init_env0_def)
  note T = init_validates_translator [where ?md5.0 = "\<lambda>t. t" and senv = session_env0]
  from T [where env = init_env0 and src = "''en''" and tgt = "''fr''" and s = session0] i0
  have 1: "translation_cache session0 = []" by blast
  from T [where env = probe_fails and src = "''en''" and tgt = "''xx''" and e = RequestError] p
  have 2: "init probe_fails ''en'' ''xx'' = Raises ValueError" by blast
  with T [where env = probe_fails and src = "''en''" and tgt = "''xx''" and e = ValueError]
  have 3: "main (\<lambda>t. t) probe_fails session_env0 ''en'' ''xx'' = NotStarted ValueError" by blast
  from T [where env = mkdir_fails and src = "''en''" and tgt = "''fr''" and e = OtherError] m
  have 4: "main (\<lambda>t. t) mkdir_fails session_env0 ''en'' ''fr'' = NotStarted OtherError" by blast
  from i0 1 2 3 m 4 show ?thesis by blast
qed

text \<open>
  The constructor can fail although the engine was built and the probe translated:
  creating the cache directory is part of it.
\<close>

theorem init_fails_after_probe_counterexample:
  "translator_res mkdir_fails = Returns ()
   \<and> probe_res mkdir_fails = Returns ''test''
   \<and> init mkdir_fails ''en'' ''fr'' = Raises OtherError"
  by (simp add: init_def mkdir_fails_def init_env0_def)

section \<open>Calls of the translation engine\<close>

lemma replay_translations_append:
  "replay_translations K (xs @ ys) =
     (case replay_translations K xs of None \<Rightarrow> None | Some K' \<Rightarrow> replay_translations K' ys)"
  by (induction K xs rule: replay_translations.induct) simp_all

lemma replay_translations_none:
  "\<forall>ev\<in>set evs. \<forall>t. \<not> is_translate_of t ev \<Longrightarrow> replay_translations K evs = Some K"
proof (induction evs)
  case Nil
  then show ?case by simp
next
  case (Cons ev evs)
  then show ?case by (cases ev) auto
qed

lemma replay_translations_grows:
  "replay_translations K evs = Some K' \<Longrightarrow> set K \<subseteq> set K'"
proof (induction K evs rule: replay_translations.induct)
  case (2 K t r evs)
  then show ?case by (cases r) (auto split: if_splits)
qed simp_all

lemma replay_translations_cached:
  "replay_translations K evs = Some K' \<Longrightarrow> t \<in> set K \<Longrightarrow> filter (is_translate_of t) evs = []"
proof (induction K evs rule: replay_translations.induct)
  case (2 K t' r evs)
  then show ?case by (cases r) (auto split: if_splits)
qed simp_all

lemma replay_translations_after_success:
  assumes "replay_translations K (xs @ Translate t (Returns tr) # ys) = Some K'"
  shows "filter (is_translate_of t) ys = []"
proof -
  from assms obtain K1 where 1: "replay_translations K xs = Some K1"
    and 2: "replay_translations K1 (Translate t (Returns tr) # ys) = Some K'"
    by (auto simp: replay_translations_append split: option.splits)
  from 2 have "replay_translations (K1 @ [t]) ys = Some K'" by (simp split: if_splits)
  from replay_translations_cached [OF this, of t] show ?thesis by simp
qed

lemma is_translated_imp: "is_translated t ev \<Longrightarrow> is_translate_of t ev"
  by (induction t ev rule: is_translated.induct) simp_all

lemma replay_translations_once:
  "replay_translations K evs = Some K' \<Longrightarrow> length (filter (is_translated t) evs) \<le> 1"
proof (induction K evs rule: replay_translations.induct)
  case (2 K t' r evs)
  show ?case
  proof (cases "is_translated t (Translate t' r)")
    case False
    with 2 show ?thesis by (cases r) (auto split: if_splits)
  next
    case True
    then obtain tr where r: "r = Returns tr" and t: "t' = t" by (cases r) auto
    with "2.prems" have "replay_translations (K @ [t]) evs = Some K'" by (simp split: if_splits)
    from replay_translations_cached [OF this, of t]
    have "filter (is_translate_of t) evs = []" by simp
    then have "filter (is_translated t) evs = []"
      using is_translated_imp by (auto simp: filter_empty_conv)
    with r t show ?thesis by simp
  qed
qed simp_all

lemma tracks_refl: "tracks s s"
  by (simp add: tracks_def)

lemma tracks_trans: "tracks s s1 \<Longrightarrow> tracks s1 s2 \<Longrightarrow> tracks s s2"
  by (auto simp: tracks_def replay_translations_append)

lemma tracks_silent:
  assumes "appends P s s'" and "\<And>ev t. P ev \<Longrightarrow> \<not> is_translate_of t ev"
    and "translation_cache s' = translation_cache s"
  shows "tracks s s'"
proof -
  from assms(1) obtain evs where "trace s' = trace s @ evs" "list_all P evs"
    by (auto simp: appends_def)
  with assms(2) replay_translations_none [of evs "map fst (translation_cache s)"] assms(3)
  show ?thesis by (auto simp: tracks_def list_all_iff)
qed

lemma tracks_log:
  "\<forall>ev\<in>set evs. \<forall>t. \<not> is_translate_of t ev \<Longrightarrow> tracks s (log evs s)"
  by (simp add: tracks_def replay_translations_none)

lemma translate_cached_tracks: "tracks s (snd (translate_cached env t s))"
proof (cases "map_of (translation_cache s) t")
  case None
  then have fresh: "t \<notin> set (map fst (translation_cache s))" by (simp add: map_of_eq_None_iff)
  from dict_set_fresh [OF this] fresh None show ?thesis
    by (cases "translate_res env") (auto simp: translate_cached_def tracks_def)
next
  case (Some tr)
  then show ?thesis by (simp add: translate_cached_def tracks_def)
qed

lemma text_to_speech_tracks: "tracks s (snd (text_to_speech md5 n env t s))"
proof (rule tracks_silent [OF text_to_speech_appends])
  show "\<not> is_translate_of t' ev" if "speech_event ev" for ev t'
    using that by (cases ev) simp_all
  show "translation_cache (snd (text_to_speech md5 n env t s)) = translation_cache s"
    by (rule text_to_speech_frame)
qed

lemma tracks_log_after:
  "tracks s s1 \<Longrightarrow> \<forall>ev\<in>set evs. \<forall>t. \<not> is_translate_of t ev \<Longrightarrow> tracks s (log evs s1)"
  by (rule tracks_trans [OF _ tracks_log])

lemma try_body_tracks: "tracks s (snd (try_body md5 env s))"
proof -
  let ?s1 = "log [Listen 5 10] s"
  have 1: "tracks s ?s1" by (rule tracks_log) simp
  show ?thesis
  proof (cases "listen_res env")
    case (Raises e)
    with 1 show ?thesis by (simp add: try_body_def Let_def)
  next
    case L: (Returns au)
    let ?s2 = "log [Recognize au (source_lang ?s1)] ?s1"
    have 2: "tracks s ?s2" by (rule tracks_log_after [OF 1]) simp
    show ?thesis
    proof (cases "recognize_res env")
      case (Raises e)
      with L 2 show ?thesis by (simp add: try_body_def Let_def)
    next
      case R: (Returns t)
      let ?s3 = "log [Sleep (1 / 2)] ?s2"
      have 3: "tracks s ?s3" by (rule tracks_log_after [OF 2]) simp
      show ?thesis
      proof (cases "throttle_sleep env")
        case Interrupted
        with L R 3 show ?thesis by (simp add: try_body_def Let_def)
      next
        case Slept
        obtain r s4 where tc: "translate_cached env t ?s3 = (r, s4)"
          by (cases "translate_cached env t ?s3")
        with translate_cached_tracks [of ?s3 env t] have "tracks ?s3 s4" by simp
        with 3 have 4: "tracks s s4" by (rule tracks_trans)
        show ?thesis
        proof (cases r)
          case (Raises e)
          with L R Slept tc 4 show ?thesis by (simp add: try_body_def Let_def)
        next
          case (Returns tr)
          with L R Slept tc have "try_body md5 env s = text_to_speech md5 3 (tts_env env) tr s4"
            by (simp add: try_body_def Let_def)
          with tracks_trans [OF 4 text_to_speech_tracks] show ?thesis by simp
        qed
      qed
    qed
  qed
qed

lemma iteration_tracks: "tracks s (snd (iteration md5 env s))"
proof -
  obtain r s1 where tb: "try_body md5 env s = (r, s1)" by (cases "try_body md5 env s")
  with try_body_tracks [of s md5 env] have 1: "tracks s s1" by simp
  have a: "tracks s (log [Print m] s1)" for m
    by (rule tracks_log_after [OF 1]) simp
  have b: "tracks s (log [Print MsgUnexpected, Sleep 1] s1)"
    by (rule tracks_log_after [OF 1]) simp
  show ?thesis
    using tb 1 a b by (cases r) (simp_all add: iteration_def split: sleep_outcome.splits)
qed

lemma session_loop_tracks: "tracks s (snd (session_loop md5 envs s))"
proof (induction envs arbitrary: s)
  case Nil
  then show ?case by (simp add: tracks_refl)
next
  case (Cons env envs)
  obtain r s1 where it: "iteration md5 env s = (r, s1)" by (cases "iteration md5 env s")
  with iteration_tracks [of s md5 env] have 1: "tracks s s1" by simp
  from it 1 tracks_trans [OF 1 Cons.IH] show ?case by (cases r) simp_all
qed

lemma adjust_appends_no_translate:
  "appends (\<lambda>ev. \<forall>t. \<not> is_translate_of t ev) s (snd (adjust_for_ambient_noise passes s))"
proof -
  have cp: "appends (\<lambda>ev. \<forall>t. \<not> is_translate_of t ev) s (snd (calibration_passes passes xs s))" for xs s
  proof (induction xs arbitrary: s)
    case Nil
    then show ?case by (simp add: appends_refl)
  next
    case (Cons i xs)
    have "appends (\<lambda>ev. \<forall>t. \<not> is_translate_of t ev) s
            (log [AdjustForAmbientNoise 1, Print (MsgCalibrating (i + 1))] s)"
      by (simp add: appends_log)
    from appends_trans [OF this Cons.IH] show ?case
      by (cases "passes i") (simp_all add: appends_log)
  qed
  let ?s0 = "log [Print MsgAdjusting] s"
  obtain r s1 where eq: "calibration_passes passes [0 ..< 3] ?s0 = (r, s1)"
    by (cases "calibration_passes passes [0 ..< 3] ?s0")
  have "appends (\<lambda>ev. \<forall>t. \<not> is_translate_of t ev) s ?s0" by (simp add: appends_log)
  from appends_trans [OF this cp [where xs = "[0 ..< 3]" and s = ?s0]] eq
  have 1: "appends (\<lambda>ev. \<forall>t. \<not> is_translate_of t ev) s s1" by simp
  have 2: "appends (\<lambda>ev. \<forall>t. \<not> is_translate_of t ev) s (log [Print m] s1)" for m
    by (rule appends_log_after [OF 1]) simp
  from eq 1 2 show ?thesis
    by (cases r) (simp_all add: adjust_for_ambient_noise_def)
qed

lemma adjust_tracks: "tracks s (snd (adjust_for_ambient_noise passes s))"
  by (rule tracks_silent [OF adjust_appends_no_translate]) (simp_all add: adjust_cache)

lemma sweep_cache: "translation_cache (snd (sweep now stat unlink xs s)) = translation_cache s"
  by (induction xs arbitrary: s) (auto split: outcome.splits)

lemma finally_cleanup_cache:
  "translation_cache (run_state (finally_cleanup env pending s)) = translation_cache s"
proof -
  obtain r s1 where c: "cleanup (cleanup_time env) (stat_res env) (unlink_res env) s = (r, s1)"
    by (cases "cleanup (cleanup_time env) (stat_res env) (unlink_res env) s")
  then have "translation_cache s1 = translation_cache s"
    using sweep_cache [of "cleanup_time env" "stat_res env" "unlink_res env"
        "glob_mp3 (cache_dir s) (files s)" "log [Glob (cache_dir s)] s"]
    by (simp add: cleanup_def)
  with c show ?thesis
    by (cases r; cases pending) (simp_all add: finally_cleanup_def)
qed

lemma finally_cleanup_tracks: "tracks s (run_state (finally_cleanup env pending s))"
proof (rule tracks_silent [OF finally_cleanup_appends])
  show "\<not> is_translate_of t ev" if "is_glob ev \<or> is_unlink ev" for ev t
    using that by (cases ev) simp_all
  show "translation_cache (run_state (finally_cleanup env pending s)) = translation_cache s"
    by (rule finally_cleanup_cache)
qed

lemma listen_and_translate_tracks: "tracks s (run_state (listen_and_translate md5 env s))"
proof -
  let ?s1 = "snd (adjust_for_ambient_noise (calibration_res env) s)"
  let ?s1' = "log [Print MsgListening] ?s1"
  have a1: "tracks s ?s1" by (rule adjust_tracks)
  have a2: "tracks s ?s1'" by (rule tracks_log_after [OF a1]) simp
  have a3: "tracks s (snd (session_loop md5 (rounds env) ?s1'))"
    by (rule tracks_trans [OF a2 session_loop_tracks])
  have stop: "tracks s (run_state (finally_cleanup env pending (log [Print MsgStopped] s2)))"
    if "tracks s s2" for s2 pending
    by (rule tracks_trans [OF tracks_log_after [OF that] finally_cleanup_tracks]) simp
  have raise: "tracks s (run_state (finally_cleanup env pending s2))"
    if "tracks s s2" for s2 pending
    by (rule tracks_trans [OF that finally_cleanup_tracks])
  show ?thesis
  proof (cases rule: listen_and_translate_cases [of env s md5])
    case (running s2)
    with a3 show ?thesis by simp
  next
    case (no_microphone e)
    with stop [OF tracks_refl] raise [OF tracks_refl] show ?thesis by simp
  next
    case (calibration_interrupted s1)
    with a1 have "tracks s s1" by simp
    from stop [OF this] calibration_interrupted(3) show ?thesis by simp
  next
    case (loop_left e s2)
    with a3 have "tracks s s2" by simp
    from stop [OF this] raise [OF this] loop_left(4) show ?thesis by simp
  qed
qed

lemma listen_and_translate_replays:
  obtains K' where
    "replay_translations (map fst (translation_cache s))
       (added s (run_state (listen_and_translate md5 env s))) = Some K'"
proof -
  from listen_and_translate_tracks [of s md5 env] obtain evs where
    "trace (run_state (listen_and_translate md5 env s)) = trace s @ evs"
    "replay_translations (map fst (translation_cache s)) evs
       = Some (map fst (translation_cache (run_state (listen_and_translate md5 env s))))"
    by (auto simp: tracks_def)
  then show ?thesis using that by (simp add: added_append)
qed

text \<open>
  Claim C1, as it holds. The recognised text is looked up as it is: the lookup hits
  exactly when the text is, character for character, a key of the cache. On a hit the
  cached translation is used and the engine is not called. On a miss the engine is
  called once; when it returns, its answer is stored under the recognised text before
  the round goes on, and when it raises, nothing is stored. So, within one session, the
  engine is never called for a text that is in the cache, it returns at most once for a
  text, and after it has returned for a text it is not called for that text again.
\<close>

theorem translate_cached_calls_engine_on_miss:
  "((map_of (translation_cache s) t \<noteq> None) = (t \<in> fst ` set (translation_cache s)))
   \<and> (map_of (translation_cache s) t = Some tr \<longrightarrow>
        translate_cached env t s = (Returns tr, log [Print (MsgTranslationCached tr)] s))
   \<and> (map_of (translation_cache s) t = None \<and> translate_res env = Returns tr \<longrightarrow>
        translate_cached env t s
          = (Returns tr,
             log [Translate t (Returns tr), Print (MsgTranslation tr)]
               (s\<lparr>translation_cache := translation_cache s @ [(t, tr)]\<rparr>))
        \<and> map_of (translation_cache s @ [(t, tr)]) t = Some tr)
   \<and> (map_of (translation_cache s) t = None \<and> translate_res env = Raises e \<longrightarrow>
        translate_cached env t s = (Raises e, log [Translate t (Raises e)] s))
   \<and> (map_of (translation_cache s) t \<noteq> None \<longrightarrow>
        filter (is_translate_of t) (added s (run_state (listen_and_translate md5 senv s))) = [])
   \<and> length (filter (is_translated t) (added s (run_state (listen_and_translate md5 senv s)))) \<le> 1
   \<and> (added s (run_state (listen_and_translate md5 senv s)) = xs @ Translate t (Returns tr) # ys
        \<longrightarrow> filter (is_translate_of t) ys = [])"
proof -
  let ?evs = "added s (run_state (listen_and_translate md5 senv s))"
  obtain K' where rp: "replay_translations (map fst (translation_cache s)) ?evs = Some K'"
    by (rule listen_and_translate_replays)
  have key: "(map_of (translation_cache s) t \<noteq> None) = (t \<in> fst ` set (translation_cache s))"
    by (simp add: map_of_eq_None_iff)
  have miss: "translate_cached env t s
          = (Returns tr,
             log [Translate t (Returns tr), Print (MsgTranslation tr)]
               (s\<lparr>translation_cache := translation_cache s @ [(t, tr)]\<rparr>))
        \<and> map_of (translation_cache s @ [(t, tr)]) t = Some tr"
    if "map_of (translation_cache s) t = None" "translate_res env = Returns tr"
  proof -
    from that(1) have "t \<notin> set (map fst (translation_cache s))" by (simp add: map_of_eq_None_iff)
    from dict_set_fresh [OF this] that show ?thesis
      by (simp add: translate_cached_def map_add_def)
  qed
  have fail: "translate_cached env t s = (Raises e, log [Translate t (Raises e)] s)"
    if "map_of (translation_cache s) t = None" "translate_res env = Raises e"
    using that by (simp add: translate_cached_def)
  have cached: "filter (is_translate_of t) ?evs = []" if "map_of (translation_cache s) t \<noteq> None"
  proof -
    from that have "t \<in> set (map fst (translation_cache s))" by (simp add: map_of_eq_None_iff)
    from replay_translations_cached [OF rp this] show ?thesis .
  qed
  have once: "length (filter (is_translated t) ?evs) \<le> 1"
    by (rule replay_translations_once [OF rp])
  have after: "filter (is_translate_of t) ys = []" if "?evs = xs @ Translate t (Returns tr) # ys"
    using rp unfolding that by (rule replay_translations_after_success)
  show ?thesis
    using key translate_cached_hit [of s t tr env] miss fail cached once after by blast
qed

theorem translate_cached_calls_engine_on_miss_witness:
  "translate_cached round_hello ''hello'' hello_cached
     = (Returns ''bonjour'', log [Print (MsgTranslationCached ''bonjour'')] hello_cached)
   \<and> translate_cached round_hello ''Hello'' hello_cached
       = (Returns ''bonjour'',
          log [Translate ''Hello'' (Returns ''bonjour''), Print (MsgTranslation ''bonjour'')]
            (hello_cached\<lparr>translation_cache := [(''hello'', ''bonjour''), (''Hello'', ''bonjour'')]\<rparr>))
   \<and> translate_cached round_translate_fails ''hello '' hello_cached
       = (Raises OtherError, log [Translate ''hello '' (Raises OtherError)] hello_cached)
   \<and> filter (is_translate_of ''hello'')
        (added hello_cached (run_state (listen_and_translate (\<lambda>t. t) session_hello_twice hello_cached)))
       = []
   \<and> length (filter (is_translated ''hello'')
        (added session0 (run_state (listen_and_translate (\<lambda>t. t) session_hello_twice session0))))
       \<le> 1"
proof -
  note T = translate_cached_calls_engine_on_miss
  have c: "translation_cache hello_cached = [(''hello'', ''bonjour'')]"
    by (simp add: hello_cached_def)
  have 1: "translate_cached round_hello ''hello'' hello_cached
     = (Returns ''bonjour'', log [Print (MsgTranslationCached ''bonjour'')] hello_cached)"
    using T [where s = hello_cached and t = "''hello''" and tr = "''bonjour''" and env = round_hello,
             THEN conjunct2, THEN conjunct1]
    by (simp add: c)
  have 2: "translate_cached round_hello ''Hello'' hello_cached
       = (Returns ''bonjour'',
          log [Translate ''Hello'' (Returns ''bonjour''), Print (MsgTranslation ''bonjour'')]
            (hello_cached\<lparr>translation_cache := [(''hello'', ''bonjour''), (''Hello'', ''bonjour'')]\<rparr>))"
    using T [where s = hello_cached and t = "''Hello''" and tr = "''bonjour''" and env = round_hello,
             THEN conjunct2, THEN conjunct2, THEN conjunct1]
    by (simp add: c round_hello_def)
  have 3: "translate_cached round_translate_fails ''hello '' hello_cached
       = (Raises OtherError, log [Translate ''hello '' (Raises OtherError)] hello_cached)"
    using T [where s = hello_cached and t = "''hello ''" and e = OtherError
               and env = round_translate_fails,
             THEN conjunct2, THEN conjunct2, THEN conjunct2, THEN conjunct1]
    by (simp add: c round_translate_fails_def)
  have 4: "filter (is_translate_of ''hello'')
        (added hello_cached (run_state (listen_and_translate (\<lambda>t. t) session_hello_twice hello_cached)))
       = []"
    using T [where s = hello_cached and t = "''hello''" and ?md5.0 = "\<lambda>t. t"
               and senv = session_hello_twice,
             THEN conjunct2, THEN conjunct2, THEN conjunct2, THEN conjunct2, THEN conjunct1]
    by (simp add: c)
  have 5: "length (filter (is_translated ''hello'')
        (added session0 (run_state (listen_and_translate (\<lambda>t. t) session_hello_twice session0))))
       \<le> 1"
    using T [where s = session0 and t = "''hello''" and ?md5.0 = "\<lambda>t. t"
               and senv = session_hello_twice,
             THEN conjunct2, THEN conjunct2, THEN conjunct2, THEN conjunct2, THEN conjunct2,
             THEN conjunct1] .
  from 1 2 3 4 5 show ?thesis by blast
qed

text \<open>
  Within one session the engine can be called twice for the same text: a call that
  raises stores nothing, and the next round that hears the text calls the engine again.
\<close>

theorem translate_called_twice_counterexample:
  "filter (is_translate_of ''hello'')
     (trace (run_state (listen_and_translate (\<lambda>t. t) session_retranslated session0)))
   = [Translate ''hello'' (Raises OtherError), Translate ''hello'' (Returns ''bonjour'')]"
  by (simp add: listen_and_translate_def session_retranslated_def session_env0_def
        adjust_for_ambient_noise_def upt_3 iteration_def try_body_def Let_def
        round_translate_fails_def round_hello_def translate_cached_def session0_def log_def
        is_Exception_def text_to_speech_def tts_try_def synthesize_def playsound_def
        get_audio_filename_def file_exists_def attempt_fine_def)

section \<open>Calls of the synthesis engine\<close>

lemma replay_synthesis_append:
  "replay_synthesis F (xs @ ys) =
     (case replay_synthesis F xs of None \<Rightarrow> None | Some F' \<Rightarrow> replay_synthesis F' ys)"
  by (induction F xs rule: replay_synthesis.induct) simp_all

lemma replay_synthesis_none:
  "\<forall>ev\<in>set evs. \<forall>p. \<not> is_synthesize_at p ev \<Longrightarrow> replay_synthesis F evs = Some F"
proof (induction evs)
  case Nil
  then show ?case by simp
next
  case (Cons ev evs)
  then show ?case by (cases ev) auto
qed

lemma replay_synthesis_existing:
  "replay_synthesis F evs = Some F' \<Longrightarrow> p \<in> set F \<Longrightarrow> filter (is_synthesize_at p) evs = []"
proof (induction F evs rule: replay_synthesis.induct)
  case (2 F t l p' r evs)
  then show ?case by (auto split: if_splits)
qed simp_all

lemma replay_synthesis_after_file:
  assumes "replay_synthesis F (xs @ Synthesize t l p r # ys) = Some F'" and "leaves_file r"
  shows "filter (is_synthesize_at p) ys = []"
proof -
  from assms(1) obtain F1 where "replay_synthesis F1 (Synthesize t l p r # ys) = Some F'"
    by (auto simp: replay_synthesis_append split: option.splits)
  with assms(2) have "replay_synthesis (F1 @ [p]) ys = Some F'" by (simp split: if_splits)
  from replay_synthesis_existing [OF this, of p] show ?thesis by simp
qed

lemma is_synthesized_at_imp: "is_synthesized_at p ev \<Longrightarrow> is_synthesize_at p ev"
  by (induction p ev rule: is_synthesized_at.induct) simp_all

lemma replay_synthesis_once:
  "replay_synthesis F evs = Some F' \<Longrightarrow> length (filter (is_synthesized_at p) evs) \<le> 1"
proof (induction F evs rule: replay_synthesis.induct)
  case (2 F t l p' r evs)
  show ?case
  proof (cases "is_synthesized_at p (Synthesize t l p' r)")
    case False
    with 2 show ?thesis by (auto split: if_splits)
  next
    case True
    then obtain tm where r: "r = Synthesized tm" and p: "p' = p" by (cases r) auto
    with "2.prems" have "replay_synthesis (F @ [p]) evs = Some F'" by (simp split: if_splits)
    from replay_synthesis_existing [OF this, of p]
    have "filter (is_synthesize_at p) evs = []" by simp
    then have "filter (is_synthesized_at p) evs = []"
      using is_synthesized_at_imp by (auto simp: filter_empty_conv)
    with r p show ?thesis by simp
  qed
qed simp_all

lemma addressed_same_session: "same_session s s1 \<Longrightarrow> addressed md5 s1 ev = addressed md5 s ev"
  by (cases ev) (simp_all add: same_session_def get_audio_filename_def)

lemma keeps_refl: "keeps md5 s s"
  by (simp add: keeps_def same_session_refl)

lemma keeps_trans:
  assumes "keeps md5 s s1" and "keeps md5 s1 s2"
  shows "keeps md5 s s2"
proof -
  from assms(1) obtain evs1 where 1: "same_session s s1" "trace s1 = trace s @ evs1"
    "list_all (addressed md5 s) evs1"
    "replay_synthesis (map fst (files s)) evs1 = Some (map fst (files s1))"
    by (auto simp: keeps_def)
  from assms(2) obtain evs2 where 2: "same_session s1 s2" "trace s2 = trace s1 @ evs2"
    "list_all (addressed md5 s1) evs2"
    "replay_synthesis (map fst (files s1)) evs2 = Some (map fst (files s2))"
    by (auto simp: keeps_def)
  from 2(3) have "list_all (addressed md5 s) evs2"
    by (simp add: list_all_iff addressed_same_session [OF 1(1)])
  with 1 2 have "trace s2 = trace s @ (evs1 @ evs2) \<and> list_all (addressed md5 s) (evs1 @ evs2)
      \<and> replay_synthesis (map fst (files s)) (evs1 @ evs2) = Some (map fst (files s2))"
    by (simp add: replay_synthesis_append)
  with same_session_trans [OF 1(1) 2(1)] show ?thesis unfolding keeps_def by blast
qed

lemma not_synthesize_addressed: "\<forall>p. \<not> is_synthesize_at p ev \<Longrightarrow> addressed md5 s ev"
  by (cases ev) simp_all

lemma keeps_log:
  "\<forall>ev\<in>set evs. \<forall>p. \<not> is_synthesize_at p ev \<Longrightarrow> keeps md5 s (log evs s)"
  by (auto simp: keeps_def same_session_refl replay_synthesis_none list_all_iff
           intro: not_synthesize_addressed)

lemma keeps_log_after:
  "keeps md5 s s1 \<Longrightarrow> \<forall>ev\<in>set evs. \<forall>p. \<not> is_synthesize_at p ev \<Longrightarrow> keeps md5 s (log evs s1)"
  by (rule keeps_trans [OF _ keeps_log])

lemma keeps_silent:
  assumes "appends P s s'" and "\<And>ev p. P ev \<Longrightarrow> \<not> is_synthesize_at p ev"
    and "files s' = files s" and "same_session s s'"
  shows "keeps md5 s s'"
proof -
  from assms(1) obtain evs where e: "trace s' = trace s @ evs" "list_all P evs"
    by (auto simp: appends_def)
  with assms(2) have n: "\<forall>ev\<in>set evs. \<forall>p. \<not> is_synthesize_at p ev" by (auto simp: list_all_iff)
  then have "list_all (addressed md5 s) evs"
    by (auto simp: list_all_iff intro: not_synthesize_addressed)
  with e(1) replay_synthesis_none [OF n, of "map fst (files s)"] assms(3,4)
  show ?thesis unfolding keeps_def by auto
qed

lemma fs_write_new: "p \<notin> set (map fst fs) \<Longrightarrow> map fst (fs_write p tm fs) = map fst fs @ [p]"
  by (induction fs) auto

lemma synthesize_keeps:
  assumes "\<not> file_exists (get_audio_filename md5 s t) (files s)"
  shows "keeps md5 s (snd (synthesize a t (get_audio_filename md5 s t) s))"
proof -
  let ?p = "get_audio_filename md5 s t"
  from assms have new: "?p \<notin> set (map fst (files s))" by (simp add: file_exists_def)
  note w = fs_write_new [OF new]
  show ?thesis
  proof (cases "synth_res a")
    case (Synthesized tm)
    then show ?thesis
      using new w [of tm]
      by (simp add: synthesize_def Let_def keeps_def same_session_def)
  next
    case (SynthFailed e left)
    then show ?thesis
      using new w
      by (cases left) (simp_all add: synthesize_def Let_def keeps_def same_session_def)
  qed
qed

lemma playsound_keeps: "keeps md5 s (snd (playsound a p s))"
  unfolding playsound_def by (simp add: keeps_log)

lemma tts_try_keeps: "keeps md5 s (snd (tts_try md5 a t s))"
proof -
  let ?p = "get_audio_filename md5 s t"
  let ?s1 = "log [Exists ?p] s"
  have 1: "keeps md5 s ?s1" by (simp add: keeps_log)
  have p1: "get_audio_filename md5 ?s1 t = ?p" by (simp add: get_audio_filename_def)
  show ?thesis
  proof (cases "file_exists ?p (files s)")
    case True
    then have "tts_try md5 a t s = playsound a ?p ?s1" by (simp add: tts_try_def Let_def)
    with keeps_trans [OF 1 playsound_keeps] show ?thesis by simp
  next
    case False
    then have "\<not> file_exists (get_audio_filename md5 ?s1 t) (files ?s1)" by (simp add: p1)
    from synthesize_keeps [OF this, of a] have 2: "keeps md5 ?s1 (snd (synthesize a t ?p ?s1))"
      by (simp add: p1)
    obtain r s2 where syn: "synthesize a t ?p ?s1 = (r, s2)" by (cases "synthesize a t ?p ?s1")
    with 2 have 2: "keeps md5 ?s1 s2" by simp
    show ?thesis
    proof (cases r)
      case (Raises e)
      with False syn have "snd (tts_try md5 a t s) = s2" by (simp add: tts_try_def Let_def)
      with keeps_trans [OF 1 2] show ?thesis by simp
    next
      case (Returns u)
      with False syn have "tts_try md5 a t s = playsound a ?p s2" by (simp add: tts_try_def Let_def)
      with keeps_trans [OF keeps_trans [OF 1 2] playsound_keeps] show ?thesis by simp
    qed
  qed
qed

lemma tts_attempts_keeps: "keeps md5 s (snd (tts_attempts md5 n env t xs s))"
proof (induction xs arbitrary: s)
  case Nil
  then show ?case by (simp add: keeps_refl)
next
  case (Cons i xs)
  obtain r s1 where tr: "tts_try md5 (env i) t s = (r, s1)" by (cases "tts_try md5 (env i) t s")
  with tts_try_keeps [of md5 s "env i" t] have 1: "keeps md5 s s1" by simp
  show ?case
  proof (cases r)
    case (Returns u)
    with tr 1 show ?thesis by simp
  next
    case (Raises e)
    have a: "keeps md5 s (log [Print (MsgTTSFailed n)] s1)"
      by (rule keeps_log_after [OF 1]) simp
    have b: "keeps md5 s (log [Print (MsgRetrying (i + 2) n), Sleep 1] s1)"
      by (rule keeps_log_after [OF 1]) simp
    from Raises tr 1 keeps_trans [OF a Cons.IH] keeps_trans [OF b Cons.IH] b
    show ?thesis by (simp split: sleep_outcome.splits)
  qed
qed

lemma text_to_speech_keeps: "keeps md5 s (snd (text_to_speech md5 n env t s))"
  by (simp add: text_to_speech_def tts_attempts_keeps)

lemma translate_cached_keeps: "keeps md5 s (snd (translate_cached env t s))"
  by (auto simp: translate_cached_def keeps_def same_session_def
           split: option.splits outcome.splits)

lemma try_body_keeps: "keeps md5 s (snd (try_body md5 env s))"
proof -
  let ?s1 = "log [Listen 5 10] s"
  have 1: "keeps md5 s ?s1" by (rule keeps_log) simp
  show ?thesis
  proof (cases "listen_res env")
    case (Raises e)
    with 1 show ?thesis by (simp add: try_body_def Let_def)
  next
    case L: (Returns au)
    let ?s2 = "log [Recognize au (source_lang ?s1)] ?s1"
    have 2: "keeps md5 s ?s2" by (rule keeps_log_after [OF 1]) simp
    show ?thesis
    proof (cases "recognize_res env")
      case (Raises e)
      with L 2 show ?thesis by (simp add: try_body_def Let_def)
    next
      case R: (Returns t)
      let ?s3 = "log [Sleep (1 / 2)] ?s2"
      have 3: "keeps md5 s ?s3" by (rule keeps_log_after [OF 2]) simp
      show ?thesis
      proof (cases "throttle_sleep env")
        case Interrupted
        with L R 3 show ?thesis by (simp add: try_body_def Let_def)
      next
        case Slept
        obtain r s4 where tc: "translate_cached env t ?s3 = (r, s4)"
          by (cases "translate_cached env t ?s3")
        with translate_cached_keeps [of md5 ?s3 env t] have "keeps md5 ?s3 s4" by simp
        with 3 have 4: "keeps md5 s s4" by (rule keeps_trans)
        show ?thesis
        proof (cases r)
          case (Raises e)
          with L R Slept tc 4 show ?thesis by (simp add: try_body_def Let_def)
        next
          case (Returns tr)
          with L R Slept tc have "try_body md5 env s = text_to_speech md5 3 (tts_env env) tr s4"
            by (simp add: try_body_def Let_def)
          with keeps_trans [OF 4 text_to_speech_keeps] show ?thesis by simp
        qed
      qed
    qed
  qed
qed

lemma iteration_keeps: "keeps md5 s (snd (iteration md5 env s))"
proof -
  obtain r s1 where tb: "try_body md5 env s = (r, s1)" by (cases "try_body md5 env s")
  with try_body_keeps [of md5 s env] have 1: "keeps md5 s s1" by simp
  have a: "keeps md5 s (log [Print m] s1)" for m
    by (rule keeps_log_after [OF 1]) simp
  have b: "keeps md5 s (log [Print MsgUnexpected, Sleep 1] s1)"
    by (rule keeps_log_after [OF 1]) simp
  show ?thesis
    using tb 1 a b by (cases r) (simp_all add: iteration_def split: sleep_outcome.splits)
qed

lemma session_loop_keeps: "keeps md5 s (snd (session_loop md5 envs s))"
proof (induction envs arbitrary: s)
  case Nil
  then show ?case by (simp add: keeps_refl)
next
  case (Cons env envs)
  obtain r s1 where it: "iteration md5 env s = (r, s1)" by (cases "iteration md5 env s")
  with iteration_keeps [of md5 s env] have 1: "keeps md5 s s1" by simp
  from it 1 keeps_trans [OF 1 Cons.IH] show ?case by (cases r) simp_all
qed

lemma calibration_passes_frame:
  "files (snd (calibration_passes passes xs s)) = files s
   \<and> same_session s (snd (calibration_passes passes xs s))
   \<and> appends (\<lambda>ev. is_adjust ev \<or> is_print ev) s (snd (calibration_passes passes xs s))"
proof (induction xs arbitrary: s)
  case Nil
  then show ?case by (simp add: same_session_refl appends_refl)
next
  case (Cons i xs)
  let ?s1 = "log [AdjustForAmbientNoise 1, Print (MsgCalibrating (i + 1))] s"
  have "appends (\<lambda>ev. is_adjust ev \<or> is_print ev) s ?s1" by (simp add: appends_log)
  from appends_trans [OF this] Cons.IH [of ?s1] show ?case
    by (cases "passes i") (auto simp: same_session_def appends_log)
qed

lemma adjust_frame:
  "files (snd (adjust_for_ambient_noise passes s)) = files s"
  "same_session s (snd (adjust_for_ambient_noise passes s))"
  "appends (\<lambda>ev. is_adjust ev \<or> is_print ev) s (snd (adjust_for_ambient_noise passes s))"
proof -
  let ?s0 = "log [Print MsgAdjusting] s"
  obtain r s1 where eq: "calibration_passes passes [0 ..< 3] ?s0 = (r, s1)"
    by (cases "calibration_passes passes [0 ..< 3] ?s0")
  with calibration_passes_frame [of passes "[0 ..< 3]" ?s0]
  have 1: "files s1 = files s" "same_session s s1"
    "appends (\<lambda>ev. is_adjust ev \<or> is_print ev) ?s0 s1"
    by (simp_all add: same_session_def)
  have "appends (\<lambda>ev. is_adjust ev \<or> is_print ev) s ?s0" by (simp add: appends_log)
  from appends_trans [OF this 1(3)] have 2: "appends (\<lambda>ev. is_adjust ev \<or> is_print ev) s s1" .
  have 3: "appends (\<lambda>ev. is_adjust ev \<or> is_print ev) s (log [Print m] s1)" for m
    by (rule appends_log_after [OF 2]) simp
  from eq 1 2 3 show "files (snd (adjust_for_ambient_noise passes s)) = files s"
    "same_session s (snd (adjust_for_ambient_noise passes s))"
    "appends (\<lambda>ev. is_adjust ev \<or> is_print ev) s (snd (adjust_for_ambient_noise passes s))"
    by (cases r; simp add: adjust_for_ambient_noise_def)+
qed

lemma adjust_keeps: "keeps md5 s (snd (adjust_for_ambient_noise passes s))"
proof (rule keeps_silent [OF adjust_frame(3)])
  show "\<not> is_synthesize_at p ev" if "is_adjust ev \<or> is_print ev" for ev p
    using that by (cases ev) simp_all
qed (rule adjust_frame)+

lemma sweep_same_session: "same_session s (snd (sweep now stat unlink xs s))"
proof (induction xs arbitrary: s)
  case Nil
  then show ?case by (simp add: same_session_refl)
next
  case (Cons f xs)
  have "same_session s (snd (sweep now stat unlink xs (log evs (s\<lparr>files := fs\<rparr>))))" for evs fs
    using Cons.IH [of "log evs (s\<lparr>files := fs\<rparr>)"] by (simp add: same_session_def)
  moreover have "same_session s (snd (sweep now stat unlink xs (log evs s)))" for evs
    using Cons.IH [of "log evs s"] by (simp add: same_session_def)
  ultimately show ?case using Cons.IH [of s]
    by (auto simp: same_session_refl split: outcome.splits)
qed

lemma finally_cleanup_same_session: "same_session s (run_state (finally_cleanup env pending s))"
proof -
  obtain r s1 where c: "cleanup (cleanup_time env) (stat_res env) (unlink_res env) s = (r, s1)"
    by (cases "cleanup (cleanup_time env) (stat_res env) (unlink_res env) s")
  then have "same_session s s1"
    using sweep_same_session [of "log [Glob (cache_dir s)] s" "cleanup_time env" "stat_res env" "unlink_res env"
        "glob_mp3 (cache_dir s) (files s)"]
    by (simp add: cleanup_def same_session_def)
  with c show ?thesis
    by (cases r; cases pending) (simp_all add: finally_cleanup_def)
qed

text \<open>The session up to the cleanup sweep, and the sweep after it.\<close>

lemma keeps_then_cleanup:
  assumes "keeps md5 s s2"
  shows "same_session s (run_state (finally_cleanup env pending s2))
     \<and> (\<exists>evs F'. trace (run_state (finally_cleanup env pending s2)) = trace s @ evs
            \<and> list_all (addressed md5 s) evs
            \<and> replay_synthesis (map fst (files s)) evs = Some F')"
proof -
  let ?s' = "run_state (finally_cleanup env pending s2)"
  from assms obtain evs1 where 1: "same_session s s2" "trace s2 = trace s @ evs1"
    "list_all (addressed md5 s) evs1"
    "replay_synthesis (map fst (files s)) evs1 = Some (map fst (files s2))"
    by (auto simp: keeps_def)
  from finally_cleanup_appends [of s2 env pending] obtain evs2 where
    2: "trace ?s' = trace s2 @ evs2" "list_all (\<lambda>ev. is_glob ev \<or> is_unlink ev) evs2"
    by (auto simp: appends_def)
  have n: "\<forall>ev\<in>set evs2. \<forall>p. \<not> is_synthesize_at p ev"
  proof (intro ballI allI)
    fix ev p assume "ev \<in> set evs2"
    with 2(2) have "is_glob ev \<or> is_unlink ev" by (simp add: list_all_iff)
    then show "\<not> is_synthesize_at p ev" by (cases ev) simp_all
  qed
  then have "list_all (addressed md5 s) evs2"
    by (auto simp: list_all_iff intro: not_synthesize_addressed)
  with 1 2(1) replay_synthesis_none [OF n, of "map fst (files s2)"]
  have "trace ?s' = trace s @ (evs1 @ evs2) \<and> list_all (addressed md5 s) (evs1 @ evs2)
      \<and> replay_synthesis (map fst (files s)) (evs1 @ evs2) = Some (map fst (files s2))"
    by (simp add: replay_synthesis_append)
  moreover have "same_session s ?s'"
    by (rule same_session_trans [OF 1(1) finally_cleanup_same_session])
  ultimately show ?thesis by blast
qed

lemma listen_and_translate_synthesis:
  "same_session s (run_state (listen_and_translate md5 env s))
   \<and> (\<exists>evs F'. trace (run_state (listen_and_translate md5 env s)) = trace s @ evs
          \<and> list_all (addressed md5 s) evs
          \<and> replay_synthesis (map fst (files s)) evs = Some F')"
proof -
  let ?s1 = "snd (adjust_for_ambient_noise (calibration_res env) s)"
  let ?s1' = "log [Print MsgListening] ?s1"
  have a1: "keeps md5 s ?s1" by (rule adjust_keeps)
  have a2: "keeps md5 s ?s1'" by (rule keeps_log_after [OF a1]) simp
  have a3: "keeps md5 s (snd (session_loop md5 (rounds env) ?s1'))"
    by (rule keeps_trans [OF a2 session_loop_keeps])
  have stop: "keeps md5 s (log [Print MsgStopped] s2)" if "keeps md5 s s2" for s2
    by (rule keeps_log_after [OF that]) simp
  show ?thesis
  proof (cases rule: listen_and_translate_cases [of env s md5])
    case (running s2)
    with a3 have "keeps md5 s s2" by simp
    with running(4) show ?thesis unfolding keeps_def by auto
  next
    case (no_microphone e)
    with keeps_then_cleanup [OF stop [OF keeps_refl], of env None]
      keeps_then_cleanup [OF keeps_refl, of s env "Some e"]
    show ?thesis by simp
  next
    case (calibration_interrupted s1)
    with a1 have "keeps md5 s s1" by simp
    from keeps_then_cleanup [OF stop [OF this], of env None] calibration_interrupted(3)
    show ?thesis by simp
  next
    case (loop_left e s2)
    with a3 have k: "keeps md5 s s2" by simp
    from keeps_then_cleanup [OF stop [OF k], of env None]
      keeps_then_cleanup [OF k, of env "Some e"] loop_left(4)
    show ?thesis by simp
  qed
qed

lemma fs_write_fresh: "p \<notin> set (map fst fs) \<Longrightarrow> fs_write p tm fs = fs @ [(p, tm)]"
  by (induction fs) auto

lemma tts_try_hit:
  "file_exists (get_audio_filename md5 s t) (files s) \<Longrightarrow>
   tts_try md5 a t s
     = (play_res a,
        log [Exists (get_audio_filename md5 s t),
             Play (get_audio_filename md5 s t) (play_res a)] s)"
  by (simp add: tts_try_def Let_def playsound_def log_log)

lemma tts_try_miss:
  assumes "\<not> file_exists (get_audio_filename md5 s t) (files s)"
    and "synth_res a = Synthesized tm"
  shows "tts_try md5 a t s
     = (play_res a,
        log [Exists (get_audio_filename md5 s t),
             Synthesize t (target_lang s) (get_audio_filename md5 s t) (Synthesized tm),
             Play (get_audio_filename md5 s t) (play_res a)]
          (s\<lparr>files := files s @ [(get_audio_filename md5 s t, tm)]\<rparr>))"
proof -
  from assms(1) have "get_audio_filename md5 s t \<notin> set (map fst (files s))"
    by (simp add: file_exists_def)
  from fs_write_fresh [OF this] assms show ?thesis
    by (simp add: tts_try_def Let_def synthesize_def playsound_def log_def)
qed

text \<open>
  Claim C2, as it holds. The path of the audio file is computed from the cache directory,
  the target language and the digest of the text alone, and none of them changes during
  a session: the same text gives the same path on every call. An attempt asks whether
  the file exists; when it does, the file is played and the engine is not called; when
  it does not, the engine is called for that text, language and path, and the file it
  writes is played in the same attempt. So, within one session, the engine is never
  called for a path that was on disk when the session started, it writes the file of a
  path at most once, and after a call that left the file it is not called for that path
  again.
\<close>

theorem synthesis_only_for_missing_files:
  "get_audio_filename md5 s t
     = cache_dir s @ ''/'' @ ''audio_'' @ target_lang s @ ''_'' @ md5 t @ ''.mp3''
   \<and> get_audio_filename md5 (run_state (listen_and_translate md5 senv s)) t
       = get_audio_filename md5 s t
   \<and> (file_exists (get_audio_filename md5 s t) (files s) \<longrightarrow>
        tts_try md5 a t s
          = (play_res a,
             log [Exists (get_audio_filename md5 s t),
                  Play (get_audio_filename md5 s t) (play_res a)] s))
   \<and> (\<not> file_exists (get_audio_filename md5 s t) (files s) \<and> synth_res a = Synthesized tm \<longrightarrow>
        tts_try md5 a t s
          = (play_res a,
             log [Exists (get_audio_filename md5 s t),
                  Synthesize t (target_lang s) (get_audio_filename md5 s t) (Synthesized tm),
                  Play (get_audio_filename md5 s t) (play_res a)]
               (s\<lparr>files := files s @ [(get_audio_filename md5 s t, tm)]\<rparr>)))
   \<and> (Synthesize t' l p r \<in> set (added s (run_state (listen_and_translate md5 senv s))) \<longrightarrow>
        l = target_lang s \<and> p = get_audio_filename md5 s t')
   \<and> (file_exists p (files s) \<longrightarrow>
        filter (is_synthesize_at p) (added s (run_state (listen_and_translate md5 senv s))) = [])
   \<and> length (filter (is_synthesized_at p) (added s (run_state (listen_and_translate md5 senv s)))) \<le> 1
   \<and> (added s (run_state (listen_and_translate md5 senv s)) = xs @ Synthesize t' l p r # ys
        \<and> leaves_file r \<longrightarrow> filter (is_synthesize_at p) ys = [])"
proof -
  let ?s' = "run_state (listen_and_translate md5 senv s)"
  from listen_and_translate_synthesis [of s md5 senv] obtain evs F' where
    same: "same_session s ?s'" and tr: "trace ?s' = trace s @ evs"
    and ad: "list_all (addressed md5 s) evs"
    and rp: "replay_synthesis (map fst (files s)) evs = Some F'"
    by blast
  from tr have a: "added s ?s' = evs" by (rule added_append)
  have path: "get_audio_filename md5 ?s' t = get_audio_filename md5 s t"
    using same by (simp add: same_session_def get_audio_filename_def)
  have addr: "l = target_lang s \<and> p = get_audio_filename md5 s t'"
    if "Synthesize t' l p r \<in> set (added s ?s')"
  proof -
    from that ad have "addressed md5 s (Synthesize t' l p r)" by (auto simp: a list_all_iff)
    then show ?thesis by simp
  qed
  have existing: "filter (is_synthesize_at p) (added s ?s') = []" if "file_exists p (files s)"
  proof -
    from that have "p \<in> set (map fst (files s))" by (simp add: file_exists_def)
    from replay_synthesis_existing [OF rp this] show ?thesis by (simp add: a)
  qed
  have once: "length (filter (is_synthesized_at p) (added s ?s')) \<le> 1"
    unfolding a by (rule replay_synthesis_once [OF rp])
  have after: "filter (is_synthesize_at p) ys = []"
    if "added s ?s' = xs @ Synthesize t' l p r # ys \<and> leaves_file r"
  proof -
    from that a have "evs = xs @ Synthesize t' l p r # ys" and lf: "leaves_file r" by simp_all
    with rp have "replay_synthesis (map fst (files s)) (xs @ Synthesize t' l p r # ys) = Some F'"
      by simp
    from replay_synthesis_after_file [OF this lf] show ?thesis .
  qed
  show ?thesis
  proof (intro conjI impI)
    show "get_audio_filename md5 s t
        = cache_dir s @ ''/'' @ ''audio_'' @ target_lang s @ ''_'' @ md5 t @ ''.mp3''"
      by (simp add: get_audio_filename_def)
    show "get_audio_filename md5 ?s' t = get_audio_filename md5 s t" by (rule path)
    show "tts_try md5 a t s
          = (play_res a,
             log [Exists (get_audio_filename md5 s t),
                  Play (get_audio_filename md5 s t) (play_res a)] s)"
      if "file_exists (get_audio_filename md5 s t) (files s)"
      using that by (rule tts_try_hit)
    show "tts_try md5 a t s
          = (play_res a,
             log [Exists (get_audio_filename md5 s t),
                  Synthesize t (target_lang s) (get_audio_filename md5 s t) (Synthesized tm),
                  Play (get_audio_filename md5 s t) (play_res a)]
               (s\<lparr>files := files s @ [(get_audio_filename md5 s t, tm)]\<rparr>))"
      if "\<not> file_exists (get_audio_filename md5 s t) (files s) \<and> synth_res a = Synthesized tm"
      using that by (simp add: tts_try_miss)
    show "l = target_lang s" "p = get_audio_filename md5 s t'"
      if "Synthesize t' l p r \<in> set (added s ?s')"
      using addr [OF that] by simp_all
    show "filter (is_synthesize_at p) (added s ?s') = []" if "file_exists p (files s)"
      using that by (rule existing)
    show "length (filter (is_synthesized_at p) (added s ?s')) \<le> 1" by (rule once)
    show "filter (is_synthesize_at p) ys = []"
      if "added s ?s' = xs @ Synthesize t' l p r # ys \<and> leaves_file r"
      using that by (rule after)
  qed
qed

theorem synthesis_only_for_missing_files_witness:
  "get_audio_filename (\<lambda>t. t) session0 ''bonjour'' = ''translation_cache/audio_fr_bonjour.mp3''
   \<and> file_exists (get_audio_filename (\<lambda>t. t) bonjour_on_disk ''bonjour'') (files bonjour_on_disk)
   \<and> tts_try (\<lambda>t. t) attempt_fine ''bonjour'' bonjour_on_disk
       = (Returns (), log [Exists bonjour_mp3, Play bonjour_mp3 (Returns ())] bonjour_on_disk)
   \<and> \<not> file_exists (get_audio_filename (\<lambda>t. t) session0 ''bonjour'') (files session0)
   \<and> tts_try (\<lambda>t. t) attempt_fine ''bonjour'' session0
       = (Returns (),
          log [Exists bonjour_mp3, Synthesize ''bonjour'' ''fr'' bonjour_mp3 (Synthesized 100),
               Play bonjour_mp3 (Returns ())]
            (session0\<lparr>files := [(bonjour_mp3, 100)]\<rparr>))
   \<and> filter (is_synthesize_at bonjour_mp3)
        (added bonjour_on_disk
           (run_state (listen_and_translate (\<lambda>t. t) session_hello_twice bonjour_on_disk)))
       = []
   \<and> length (filter (is_synthesized_at bonjour_mp3)
        (added session0 (run_state (listen_and_translate (\<lambda>t. t) session_hello_twice session0))))
       \<le> 1"
proof -
  note T = synthesis_only_for_missing_files [where ?md5.0 = "\<lambda>t. t"]
  have p0: "get_audio_filename (\<lambda>t. t) session0 ''bonjour'' = bonjour_mp3"
    "get_audio_filename (\<lambda>t. t) bonjour_on_disk ''bonjour'' = bonjour_mp3"
    by (simp_all add: get_audio_filename_def session0_def bonjour_on_disk_def bonjour_mp3_def)
  have ex: "file_exists bonjour_mp3 (files bonjour_on_disk)"
    "\<not> file_exists bonjour_mp3 (files session0)"
    by (simp_all add: file_exists_def bonjour_on_disk_def session0_def)
  have fine: "play_res attempt_fine = Returns ()" "synth_res attempt_fine = Synthesized 100"
    by (simp_all add: attempt_fine_def)
  have 1: "get_audio_filename (\<lambda>t. t) session0 ''bonjour'' = ''translation_cache/audio_fr_bonjour.mp3''"
    using T [where s = session0 and t = "''bonjour''", THEN conjunct1]
    by (simp add: session0_def)
  have 2: "tts_try (\<lambda>t. t) attempt_fine ''bonjour'' bonjour_on_disk
       = (Returns (), log [Exists bonjour_mp3, Play bonjour_mp3 (Returns ())] bonjour_on_disk)"
    using T [where s = bonjour_on_disk and t = "''bonjour''" and a = attempt_fine,
             THEN conjunct2, THEN conjunct2, THEN conjunct1]
    by (simp add: p0 ex fine)
  have 3: "tts_try (\<lambda>t. t) attempt_fine ''bonjour'' session0
       = (Returns (),
          log [Exists bonjour_mp3, Synthesize ''bonjour'' ''fr'' bonjour_mp3 (Synthesized 100),
               Play bonjour_mp3 (Returns ())]
            (session0\<lparr>files := [(bonjour_mp3, 100)]\<rparr>))"
    using T [where s = session0 and t = "''bonjour''" and a = attempt_fine and tm = 100,
             THEN conjunct2, THEN conjunct2, THEN conjunct2, THEN conjunct1]
    by (simp add: p0 ex fine) (simp add: session0_def)
  have 4: "filter (is_synthesize_at bonjour_mp3)
        (added bonjour_on_disk
           (run_state (listen_and_translate (\<lambda>t. t) session_hello_twice bonjour_on_disk)))
       = []"
    using T [where s = bonjour_on_disk and p = bonjour_mp3 and senv = session_hello_twice,
             THEN conjunct2, THEN conjunct2, THEN conjunct2, THEN conjunct2, THEN conjunct2,
             THEN conjunct1]
    by (simp add: ex)
  have 5: "length (filter (is_synthesized_at bonjour_mp3)
        (added session0 (run_state (listen_and_translate (\<lambda>t. t) session_hello_twice session0))))
       \<le> 1"
    using T [where s = session0 and p = bonjour_mp3 and senv = session_hello_twice,
             THEN conjunct2, THEN conjunct2, THEN conjunct2, THEN conjunct2, THEN conjunct2,
             THEN conjunct2, THEN conjunct1] .
  from 1 2 3 4 5 p0 ex show ?thesis by simp
qed

text \<open>
  Within one session the engine can be called twice for the same text and language: a
  call that raises and leaves no file is followed, in the next attempt, by another call.
\<close>

theorem synthesis_called_twice_counterexample:
  "filter (is_synthesize_at bonjour_mp3)
     (trace (run_state (listen_and_translate (\<lambda>t. t) session_resynthesized session0)))
   = [Synthesize ''bonjour'' ''fr'' bonjour_mp3 (SynthFailed OtherError None),
      Synthesize ''bonjour'' ''fr'' bonjour_mp3 (Synthesized 100)]"
  by (simp add: listen_and_translate_def session_resynthesized_def session_env0_def
        adjust_for_ambient_noise_def upt_3 iteration_def try_body_def Let_def
        round_hello_def translate_cached_def session0_def log_def
        is_Exception_def text_to_speech_def tts_try_def synthesize_def playsound_def
        get_audio_filename_def file_exists_def attempt_fine_def synth_fails_once_def
        bonjour_mp3_def)

end
